theory Spec2Isabelle
  imports Main "HOL-Library.Word"
begin

unbundle bit_operations_syntax

section \<open>Memory model\<close>

text \<open>
  The engine of SarAsio (\<^verbatim>\<open>src/SarAsio/sarclient.cpp\<close>) moves bytes between the ring
  buffer it shares with the driver and the per-channel buffers of the ASIO host. Both are
  reached through raw \<^verbatim>\<open>void *\<close> pointers, so a buffer is modelled as the region of
  bytes behind its base pointer, addressed by byte offset; the allocation size of a region
  is the caller's business and is not part of the model. A per-channel pointer may be null
  (the channel is not routed): \<open>None\<close>. Pointers into the shared ring are byte offsets
  from \<^verbatim>\<open>_sharedBuffer\<close>. The host buffers are taken to be disjoint from each other and
  from the shared mapping.
\<close>

type_synonym byte = "8 word"
type_synonym DWORD = "32 word"
type_synonym buffer = "nat \<Rightarrow> byte"
type_synonym ptr = "buffer option"

text \<open>
  What C leaves undefined is a value of the model: writing or reading through a null
  pointer, and indexing a vector or array past its end.
\<close>

datatype fault = NullDereference | IndexOutOfRange

text \<open>
  A computation that contains one of the codec's \<^verbatim>\<open>for\<close> loops may not return
  (\<open>None\<close>); when it returns it has either faulted (\<open>Inl\<close>) or produced a value.
\<close>

type_synonym 'a outcome = "(fault + 'a) option"

text \<open>\<^verbatim>\<open>memcpy((char *)target + j, buf, n)\<close> with \<open>buf\<close> in the ring.\<close>

definition memcpy_to_target :: "ptr \<Rightarrow> nat \<Rightarrow> buffer \<Rightarrow> nat \<Rightarrow> nat \<Rightarrow> fault + ptr" where
  "memcpy_to_target target j ring buf n =
     (case target of
        None \<Rightarrow> Inl NullDereference
      | Some t \<Rightarrow>
          Inr (Some (\<lambda>x. if j \<le> x \<and> x < j + n then ring (buf + (x - j)) else t x)))"

text \<open>\<^verbatim>\<open>memcpy(buf, (char *)target + j, n)\<close> with \<open>buf\<close> in the ring.\<close>

definition memcpy_from_target :: "buffer \<Rightarrow> nat \<Rightarrow> ptr \<Rightarrow> nat \<Rightarrow> nat \<Rightarrow> fault + buffer" where
  "memcpy_from_target ring buf target j n =
     (case target of
        None \<Rightarrow> Inl NullDereference
      | Some t \<Rightarrow>
          Inr (\<lambda>x. if buf \<le> x \<and> x < buf + n then t (j + (x - buf)) else ring x))"

text \<open>\<^verbatim>\<open>memset(target, 0, n)\<close>, which is also \<^verbatim>\<open>ZeroMemory(target, n)\<close>.\<close>

definition memset_zero :: "ptr \<Rightarrow> nat \<Rightarrow> fault + ptr" where
  "memset_zero target n =
     (case target of
        None \<Rightarrow> Inl NullDereference
      | Some t \<Rightarrow> Inr (Some (\<lambda>x. if x < n then 0 else t x)))"

text \<open>\<^verbatim>\<open>targetBuffers[i]\<close>: the array of per-channel pointers is a list.\<close>

definition target_at :: "ptr list \<Rightarrow> nat \<Rightarrow> fault + ptr" where
  "target_at targetBuffers i =
     (if i < length targetBuffers then Inr (targetBuffers ! i) else Inl IndexOutOfRange)"

section \<open>The codec: \<^verbatim>\<open>SarClient::demux\<close> and \<^verbatim>\<open>SarClient::mux\<close>\<close>

text \<open>
  The C \<^verbatim>\<open>int\<close> parameters \<^verbatim>\<open>ntargets\<close> and \<^verbatim>\<open>nsources\<close> are integers (tick passes
  a register value converted to \<^verbatim>\<open>int\<close>, which may be negative). The sample width and
  the \<^verbatim>\<open>size_t\<close> quantities are natural numbers: the model covers non-negative sample
  widths and sizes for which no \<^verbatim>\<open>size_t\<close> computation wraps.

  The inner loop of demux, lines 501-513, for one channel. \<open>second_i\<close> is
  \<^verbatim>\<open>muxBufferSecond + sampleSize * i\<close>. The loop does not return when
  \<^verbatim>\<open>sampleSize\<close> is 0 and there is something to copy.
\<close>

partial_function (option) demux_loop ::
  "buffer \<Rightarrow> nat \<Rightarrow> nat \<Rightarrow> nat \<Rightarrow> nat \<Rightarrow> nat \<Rightarrow> nat \<Rightarrow> nat \<Rightarrow> nat \<Rightarrow> ptr \<Rightarrow> ptr outcome" where
  "demux_loop ring second_i secondSize targetSize sourceStride sampleSize j buf remaining target =
     (if j < targetSize \<and> remaining \<ge> sourceStride then
        (case memcpy_to_target target j ring buf sampleSize of
           Inl e \<Rightarrow> Some (Inl e)
         | Inr target' \<Rightarrow>
             (if remaining - sourceStride = 0
              then demux_loop ring second_i secondSize targetSize sourceStride sampleSize
                     (j + sampleSize) second_i secondSize target'
              else demux_loop ring second_i secondSize targetSize sourceStride sampleSize
                     (j + sampleSize) (buf + sourceStride) (remaining - sourceStride) target'))
      else Some (Inr target))"

declare demux_loop.simps [code]

text \<open>
  The loop over the source channels, lines 493-514; it returns the channel index it
  stopped at together with the buffers.
\<close>

function demux_channels ::
  "buffer \<Rightarrow> nat \<Rightarrow> nat \<Rightarrow> nat \<Rightarrow> nat \<Rightarrow> nat \<Rightarrow> nat \<Rightarrow> nat \<Rightarrow> int \<Rightarrow> nat \<Rightarrow> ptr list
     \<Rightarrow> (nat \<times> ptr list) outcome" where
  "demux_channels ring muxBufferFirst firstSize muxBufferSecond secondSize targetSize
       sourceStride sampleSize nsources i targetBuffers =
     (if int i < nsources then
        (case target_at targetBuffers i of
           Inl e \<Rightarrow> Some (Inl e)
         | Inr target \<Rightarrow>
             (if target = None
              then demux_channels ring muxBufferFirst firstSize muxBufferSecond secondSize
                     targetSize sourceStride sampleSize nsources (i + 1) targetBuffers
              else
                (case demux_loop ring (muxBufferSecond + sampleSize * i) secondSize targetSize
                        sourceStride sampleSize 0 (muxBufferFirst + sampleSize * i) firstSize
                        target of
                   None \<Rightarrow> None
                 | Some (Inl e) \<Rightarrow> Some (Inl e)
                 | Some (Inr target') \<Rightarrow>
                     demux_channels ring muxBufferFirst firstSize muxBufferSecond secondSize
                       targetSize sourceStride sampleSize nsources (i + 1)
                       (targetBuffers[i := target']))))
      else Some (Inr (i, targetBuffers)))"
  by pat_completeness auto
termination
  by (relation "measure (\<lambda>(ring, f, fs, s, sz, ts, st, ss, n, i, tbs). nat (n - int i))") auto

text \<open>
  Zeroing the channels from index \<open>i\<close> up to \<^verbatim>\<open>ntargets\<close>, skipping null entries: the
  loop of demux at lines 517-521, and (from index 0, with \<^verbatim>\<open>ZeroMemory\<close>) the three
  loops of tick at lines 90-94, 131-135 and 169-173, which are the same code.
\<close>

function zero_targets :: "nat \<Rightarrow> int \<Rightarrow> nat \<Rightarrow> ptr list \<Rightarrow> fault + ptr list" where
  "zero_targets targetSize ntargets i targetBuffers =
     (if int i < ntargets then
        (case target_at targetBuffers i of
           Inl e \<Rightarrow> Inl e
         | Inr target \<Rightarrow>
             (if target \<noteq> None then
                (case memset_zero target targetSize of
                   Inl e \<Rightarrow> Inl e
                 | Inr target' \<Rightarrow>
                     zero_targets targetSize ntargets (i + 1) (targetBuffers[i := target']))
              else zero_targets targetSize ntargets (i + 1) targetBuffers))
      else Inr targetBuffers)"
  by pat_completeness auto
termination
  by (relation "measure (\<lambda>(ts, n, i, tbs). nat (n - int i))") auto

text \<open>
  \<^verbatim>\<open>SarClient::demux\<close>, lines 481-522. \<^verbatim>\<open>sourceStride\<close> is computed from the
  unclamped \<^verbatim>\<open>nsources\<close>; for a negative \<^verbatim>\<open>nsources\<close> the product is negative, its
  conversion to \<^verbatim>\<open>size_t\<close> is never used (no channel is copied), and the model has 0.
\<close>

definition demux ::
  "buffer \<Rightarrow> nat \<Rightarrow> nat \<Rightarrow> nat \<Rightarrow> nat \<Rightarrow> ptr list \<Rightarrow> int \<Rightarrow> int \<Rightarrow> nat \<Rightarrow> nat
     \<Rightarrow> ptr list outcome" where
  "demux ring muxBufferFirst firstSize muxBufferSecond secondSize targetBuffers ntargets
       nsources targetSize sampleSize =
     (let sourceStride = nat (int sampleSize * nsources);
          nsources' = (if nsources > ntargets then ntargets else nsources)
      in (case demux_channels ring muxBufferFirst firstSize muxBufferSecond secondSize
                 targetSize sourceStride sampleSize nsources' 0 targetBuffers of
            None \<Rightarrow> None
          | Some (Inl e) \<Rightarrow> Some (Inl e)
          | Some (Inr (i, targetBuffers')) \<Rightarrow>
              Some (zero_targets targetSize ntargets i targetBuffers')))"

text \<open>The inner loop of mux, lines 545-557: the copy goes from the channel to the ring.\<close>

partial_function (option) mux_loop ::
  "ptr \<Rightarrow> nat \<Rightarrow> nat \<Rightarrow> nat \<Rightarrow> nat \<Rightarrow> nat \<Rightarrow> nat \<Rightarrow> nat \<Rightarrow> nat \<Rightarrow> buffer \<Rightarrow> buffer outcome" where
  "mux_loop target second_i secondSize targetSize sourceStride sampleSize j buf remaining ring =
     (if j < targetSize \<and> remaining \<ge> sourceStride then
        (case memcpy_from_target ring buf target j sampleSize of
           Inl e \<Rightarrow> Some (Inl e)
         | Inr ring' \<Rightarrow>
             (if remaining - sourceStride = 0
              then mux_loop target second_i secondSize targetSize sourceStride sampleSize
                     (j + sampleSize) second_i secondSize ring'
              else mux_loop target second_i secondSize targetSize sourceStride sampleSize
                     (j + sampleSize) (buf + sourceStride) (remaining - sourceStride) ring'))
      else Some (Inr ring))"

declare mux_loop.simps [code]

text \<open>The loop over the channels of mux, lines 537-558.\<close>

function mux_channels ::
  "ptr list \<Rightarrow> nat \<Rightarrow> nat \<Rightarrow> nat \<Rightarrow> nat \<Rightarrow> nat \<Rightarrow> nat \<Rightarrow> nat \<Rightarrow> int \<Rightarrow> nat \<Rightarrow> buffer
     \<Rightarrow> buffer outcome" where
  "mux_channels targetBuffers muxBufferFirst firstSize muxBufferSecond secondSize targetSize
       sourceStride sampleSize nsources i ring =
     (if int i < nsources then
        (case target_at targetBuffers i of
           Inl e \<Rightarrow> Some (Inl e)
         | Inr target \<Rightarrow>
             (if target = None
              then mux_channels targetBuffers muxBufferFirst firstSize muxBufferSecond
                     secondSize targetSize sourceStride sampleSize nsources (i + 1) ring
              else
                (case mux_loop target (muxBufferSecond + sampleSize * i) secondSize targetSize
                        sourceStride sampleSize 0 (muxBufferFirst + sampleSize * i) firstSize
                        ring of
                   None \<Rightarrow> None
                 | Some (Inl e) \<Rightarrow> Some (Inl e)
                 | Some (Inr ring') \<Rightarrow>
                     mux_channels targetBuffers muxBufferFirst firstSize muxBufferSecond
                       secondSize targetSize sourceStride sampleSize nsources (i + 1) ring')))
      else Some (Inr ring))"
  by pat_completeness auto
termination
  by (relation "measure (\<lambda>(tbs, f, fs, s, sz, ts, st, ss, n, i, ring). nat (n - int i))") auto

text \<open>\<^verbatim>\<open>SarClient::mux\<close>, lines 525-559. The result is the ring; no channel is written.\<close>

definition mux ::
  "buffer \<Rightarrow> nat \<Rightarrow> nat \<Rightarrow> nat \<Rightarrow> nat \<Rightarrow> ptr list \<Rightarrow> int \<Rightarrow> int \<Rightarrow> nat \<Rightarrow> nat
     \<Rightarrow> buffer outcome" where
  "mux ring muxBufferFirst firstSize muxBufferSecond secondSize targetBuffers ntargets
       nsources targetSize sampleSize =
     (let sourceStride = nat (int sampleSize * nsources);
          nsources' = (if nsources > ntargets then ntargets else nsources)
      in mux_channels targetBuffers muxBufferFirst firstSize muxBufferSecond secondSize
           targetSize sourceStride sampleSize nsources' 0 ring)"

section \<open>The session object and its environment\<close>

text \<open>
  Handles and COM interface pointers are opaque pointer-sized values; \<^verbatim>\<open>nullptr\<close> is 0
  and \<^verbatim>\<open>INVALID_HANDLE_VALUE\<close> is \<open>-1\<close>, as in the Windows headers.
\<close>

type_synonym HANDLE = int

definition INVALID_HANDLE_VALUE :: HANDLE where
  "INVALID_HANDLE_VALUE = - 1"

definition ERROR_IO_PENDING :: DWORD where
  "ERROR_IO_PENDING = 997"

datatype EndpointType = Playback | Recording

text \<open>
  The declarations of \<^verbatim>\<open>sar.h\<close> and \<^verbatim>\<open>sarclient.h\<close> are not among the sources. The
  register block of an endpoint has the six fields tick reads; they are taken to be 32-bit
  unsigned, the type tick gives \<^verbatim>\<open>asioBufferSize\<close>, so that the arithmetic of tick wraps
  at \<open>2 ^ 32\<close>.
\<close>

record SarEndpointRegisters =
  generation :: DWORD
  activeChannelCount :: DWORD
  bufferOffset :: DWORD
  bufferSize :: DWORD
  positionRegister :: DWORD
  notificationCount :: DWORD

record NotificationHandle =
  generation_nh :: DWORD
  handle :: HANDLE

record SarHandleQueueResponse =
  handle_rsp :: HANDLE
  associatedData :: "64 word"

text \<open>
  What \<^verbatim>\<open>sar.h\<close> declares and the engine uses without defining: the two generation
  macros and the size of a handle-queue response. They are parameters of the model.
\<close>

record sar_h =
  GENERATION_NUMBER :: "DWORD \<Rightarrow> DWORD"
  GENERATION_IS_ACTIVE :: "DWORD \<Rightarrow> bool"
  sizeof_SarHandleQueueResponse :: nat

text \<open>
  Modelled from the spec: the macros of \<^verbatim>\<open>sar.h\<close>, which is missing. The specification
  has the low bits of a generation value encode the epoch and the high bit the "active
  client" flag. Used only to run the model on concrete inputs.
\<close>

definition sar_h_spec :: sar_h where
  "sar_h_spec =
     \<lparr> GENERATION_NUMBER = (\<lambda>g. take_bit 31 g),
       GENERATION_IS_ACTIVE = (\<lambda>g. bit g 31),
       sizeof_SarHandleQueueResponse = 16 \<rparr>"

datatype ioctl =
    SAR_SEND_FORMAT_CHANGE_EVENT
  | SAR_SET_BUFFER_LAYOUT
  | SAR_CREATE_ENDPOINT
  | SAR_START_REGISTRY_FILTER
  | SAR_WAIT_HANDLE_QUEUE

text \<open>
  The calls the engine makes on the session's resources, and its error log, in the order
  they happen.
\<close>

datatype os_call =
    CloseHandle HANDLE
  | CancelIoEx HANDLE
  | SetEvent HANDLE
  | DeviceIoControl HANDLE ioctl
  | GetQueuedCompletionStatus HANDLE
  | UnregisterEndpointNotificationCallback HANDLE HANDLE
  | RegisterEndpointNotificationCallback HANDLE HANDLE
  | AddRef HANDLE
  | Release HANDLE
  | LOG_ERROR string

text \<open>
  The members of \<^verbatim>\<open>SarClient\<close> (without the leading underscore), the parts of
  \<^verbatim>\<open>DriverConfig\<close> and \<^verbatim>\<open>BufferConfig\<close> the engine reads, and the log of calls.
  \<^verbatim>\<open>_registers\<close> and \<^verbatim>\<open>_sharedBuffer\<close> are pointers into the mapping shared with
  the driver: \<open>None\<close> is \<^verbatim>\<open>nullptr\<close>, otherwise the value is what the mapping holds. The
  register array is kept apart from the ring bytes. \<^verbatim>\<open>_registersLock\<close> is not modelled:
  one call runs at a time.
\<close>

record SarClient =
  endpoints :: "EndpointType list"
  enableApplicationRouting :: bool
  periodFrameSize :: nat
  sampleSize_cfg :: nat
  asioBuffers :: "ptr list list list"
  device :: HANDLE
  completionPort :: HANDLE
  handleQueueStarted :: bool
  registers :: "SarEndpointRegisters list option"
  sharedBuffer :: ptr
  sharedBufferSize :: DWORD
  notificationHandles :: "NotificationHandle list"
  updateSampleRateOnTick :: bool
  mmNotificationClientRegistered :: bool
  mmNotificationClient :: HANDLE
  mmEnumerator :: HANDLE
  oscalls :: "os_call list"

definition oscall :: "os_call \<Rightarrow> SarClient \<Rightarrow> SarClient" where
  "oscall x c = c\<lparr>oscalls := oscalls c @ [x]\<rparr>"

text \<open>
  What the driver and the operating system do during one tick: the value of
  \<^verbatim>\<open>_registers[i].generation\<close> when tick reads it again after the copy, the results of
  \<^verbatim>\<open>GetQueuedCompletionStatus\<close> and of the \<^verbatim>\<open>SAR_WAIT_HANDLE_QUEUE\<close> request with the
  contents of \<^verbatim>\<open>_handleQueueCompletion\<close> at that moment, and whether \<^verbatim>\<open>SetEvent\<close>
  succeeds.
\<close>

record tick_env =
  lateGeneration :: "nat \<Rightarrow> DWORD"
  gqcs_success :: bool
  gqcs_bytes :: DWORD
  gqcs_overlapped :: bool
  gqcs_responses :: "SarHandleQueueResponse list"
  wait_status :: bool
  wait_error :: DWORD
  wait_InternalHigh :: nat
  wait_responses :: "SarHandleQueueResponse list"
  SetEvent_ok :: "HANDLE \<Rightarrow> bool"

section \<open>The notification handle manager\<close>

text \<open>\<^verbatim>\<open>SarClient::processNotificationHandleUpdates\<close>, lines 465-479.\<close>

function processNotificationHandleUpdates ::
  "nat \<Rightarrow> SarHandleQueueResponse list \<Rightarrow> nat \<Rightarrow> SarClient \<Rightarrow> fault + SarClient" where
  "processNotificationHandleUpdates updateCount responses i c =
     (if i < updateCount then
        (if i < length responses then
           (let response = responses ! i;
                endpointIndex = unat (ucast (drop_bit 32 (associatedData response)) :: DWORD);
                generation' = (ucast (associatedData response AND 0xFFFFFFFF) :: DWORD)
            in if endpointIndex < length (notificationHandles c) then
                 (let old = handle (notificationHandles c ! endpointIndex);
                      c1 = (if old \<noteq> 0 then oscall (CloseHandle old) c else c);
                      c2 = c1\<lparr>notificationHandles := (notificationHandles c1)
                             [endpointIndex :=
                                \<lparr>generation_nh = generation', handle = handle_rsp response\<rparr>]\<rparr>
                  in processNotificationHandleUpdates updateCount responses (i + 1) c2)
               else Inl IndexOutOfRange)
         else Inl IndexOutOfRange)
      else Inr c)"
  by pat_completeness auto
termination
  by (relation "measure (\<lambda>(n, rs, i, c). n - i)") auto

text \<open>
  \<^verbatim>\<open>SarClient::updateNotificationHandles\<close>, lines 413-463, in its two phases. The
  first, lines 419-437, polls the completion port when a request is outstanding and
  decides whether to start a new one (\<^verbatim>\<open>startNewOperation\<close>).
\<close>

definition pollHandleQueue :: "sar_h \<Rightarrow> tick_env \<Rightarrow> SarClient \<Rightarrow> fault + bool \<times> SarClient" where
  "pollHandleQueue h env c =
     (if handleQueueStarted c then
        (let c0 = oscall (GetQueuedCompletionStatus (completionPort c)) c
         in if gqcs_success env then
              (case processNotificationHandleUpdates
                      (unat (gqcs_bytes env) div sizeof_SarHandleQueueResponse h)
                      (gqcs_responses env) 0 c0 of
                 Inl e \<Rightarrow> Inl e
               | Inr c1 \<Rightarrow> Inr (True, c1))
            else if gqcs_overlapped env then Inr (True, c0)
            else Inr (False, c0))
      else Inr (True, c\<lparr>handleQueueStarted := True\<rparr>))"

text \<open>The second phase, lines 443-462: the new \<^verbatim>\<open>SAR_WAIT_HANDLE_QUEUE\<close> request.\<close>

definition startHandleQueueOperation :: "sar_h \<Rightarrow> tick_env \<Rightarrow> SarClient \<Rightarrow> fault + SarClient" where
  "startHandleQueueOperation h env c =
     (let c2 = oscall (DeviceIoControl (device c) SAR_WAIT_HANDLE_QUEUE) c
      in (case (if wait_status env then
                  (case processNotificationHandleUpdates
                          (wait_InternalHigh env div sizeof_SarHandleQueueResponse h)
                          (wait_responses env) 0 c2 of
                     Inl e \<Rightarrow> Inl e
                   | Inr c3 \<Rightarrow> Inr (c3\<lparr>handleQueueStarted := False\<rparr>))
                else Inr c2) of
            Inl e \<Rightarrow> Inl e
          | Inr c4 \<Rightarrow>
              Inr (if wait_error env \<noteq> ERROR_IO_PENDING
                   then c4\<lparr>handleQueueStarted := False\<rparr> else c4)))"

definition updateNotificationHandles :: "sar_h \<Rightarrow> tick_env \<Rightarrow> SarClient \<Rightarrow> fault + SarClient" where
  "updateNotificationHandles h env c =
     (case pollHandleQueue h env c of
        Inl e \<Rightarrow> Inl e
      | Inr (startNewOperation, c1) \<Rightarrow>
          if \<not> startNewOperation then Inr c1
          else startHandleQueueOperation h env c1)"

section \<open>The tick orchestrator: \<^verbatim>\<open>SarClient::tick\<close>\<close>

text \<open>\<^verbatim>\<open>_registers[i]\<close>, \<^verbatim>\<open>_notificationHandles[i]\<close> and \<^verbatim>\<open>asioBuffers[bufferIndex][i]\<close>.\<close>

definition register_at :: "SarClient \<Rightarrow> nat \<Rightarrow> fault + SarEndpointRegisters" where
  "register_at c i =
     (case registers c of
        None \<Rightarrow> Inl NullDereference
      | Some rs \<Rightarrow> if i < length rs then Inr (rs ! i) else Inl IndexOutOfRange)"

definition notificationHandle_at :: "SarClient \<Rightarrow> nat \<Rightarrow> fault + NotificationHandle" where
  "notificationHandle_at c i =
     (if i < length (notificationHandles c) then Inr (notificationHandles c ! i)
      else Inl IndexOutOfRange)"

definition asioBuffers_at :: "SarClient \<Rightarrow> nat \<Rightarrow> nat \<Rightarrow> fault + ptr list" where
  "asioBuffers_at c bufferIndex i =
     (if bufferIndex < length (asioBuffers c) \<and> i < length (asioBuffers c ! bufferIndex)
      then Inr (asioBuffers c ! bufferIndex ! i) else Inl IndexOutOfRange)"

text \<open>
  The two ways tick changes memory outside the ring: the store
  \<^verbatim>\<open>_registers[i].positionRegister = nextPositionRegister\<close>, and the bytes of the host
  buffers of endpoint \<open>i\<close>.
\<close>

definition set_positionRegister :: "nat \<Rightarrow> DWORD \<Rightarrow> SarClient \<Rightarrow> SarClient" where
  "set_positionRegister i v c =
     c\<lparr>registers :=
         map_option (\<lambda>rs. rs[i := (rs ! i)\<lparr>positionRegister := v\<rparr>]) (registers c)\<rparr>"

definition set_asioBuffers :: "nat \<Rightarrow> nat \<Rightarrow> ptr list \<Rightarrow> SarClient \<Rightarrow> SarClient" where
  "set_asioBuffers bufferIndex i bufs c =
     c\<lparr>asioBuffers := (asioBuffers c)[bufferIndex := (asioBuffers c ! bufferIndex)[i := bufs]]\<rparr>"

text \<open>The silence loops of tick (lines 90-94, 131-135, 169-173) on endpoint \<open>i\<close>.\<close>

definition tick_silence ::
  "nat \<Rightarrow> nat \<Rightarrow> DWORD \<Rightarrow> ptr list \<Rightarrow> SarClient \<Rightarrow> fault + SarClient" where
  "tick_silence bufferIndex i asioBufferSize bufs c =
     (case zero_targets (unat asioBufferSize) (int (length bufs)) 0 bufs of
        Inl e \<Rightarrow> Inl e
      | Inr bufs' \<Rightarrow> Inr (set_asioBuffers bufferIndex i bufs' c))"

text \<open>
  Lines 77-83: the refresh of the notification handles, at most once in a tick. The
  state carries \<^verbatim>\<open>hasUpdatedNotificationHandles\<close>.
\<close>

definition tick_refresh ::
  "sar_h \<Rightarrow> tick_env \<Rightarrow> nat \<Rightarrow> SarEndpointRegisters \<Rightarrow> bool \<times> SarClient
     \<Rightarrow> fault + bool \<times> SarClient" where
  "tick_refresh h env i r st =
     (let (hasUpdatedNotificationHandles, c) = st
      in if \<not> hasUpdatedNotificationHandles \<and> notificationCount r \<noteq> 0 then
           (case notificationHandle_at c i of
              Inl e \<Rightarrow> Inl e
            | Inr nh \<Rightarrow>
                if GENERATION_NUMBER h (generation r) \<noteq> GENERATION_NUMBER h (generation_nh nh)
                then (case updateNotificationHandles h env c of
                        Inl e \<Rightarrow> Inl e
                      | Inr c' \<Rightarrow> Inr (True, c'))
                else Inr st)
         else Inr st)"

text \<open>
  Lines 99-120: the split of the copy at the end of the ring and the call of the codec.
  The result is the state after the copy. Offsets and sizes are computed in 32 bits, as
  the source does; \<^verbatim>\<open>activeChannelCount\<close> reaches the codec converted to \<^verbatim>\<open>int\<close>.
\<close>

definition tick_copy ::
  "nat \<Rightarrow> nat \<Rightarrow> SarEndpointRegisters \<Rightarrow> DWORD \<Rightarrow> ptr list \<Rightarrow> SarClient \<Rightarrow> SarClient outcome" where
  "tick_copy bufferIndex i r asioBufferSize bufs c =
     (let frameChunkSize = asioBufferSize * activeChannelCount r;
          position = positionRegister r + bufferOffset r;
          endpointDataFirst = unat position;
          endpointDataSecond = unat (bufferOffset r);
          firstSize = min frameChunkSize (bufferSize r - positionRegister r);
          secondSize = frameChunkSize - firstSize;
          ntargets = int (length bufs)
      in (case sharedBuffer c of
            None \<Rightarrow> Some (Inl NullDereference)
          | Some ring \<Rightarrow>
              if endpoints c ! i = Playback then
                (case demux ring endpointDataFirst (unat firstSize) endpointDataSecond
                        (unat secondSize) bufs ntargets (sint (activeChannelCount r))
                        (unat asioBufferSize) (sampleSize_cfg c) of
                   None \<Rightarrow> None
                 | Some (Inl e) \<Rightarrow> Some (Inl e)
                 | Some (Inr bufs') \<Rightarrow> Some (Inr (set_asioBuffers bufferIndex i bufs' c)))
              else
                (case mux ring endpointDataFirst (unat firstSize) endpointDataSecond
                        (unat secondSize) bufs ntargets (sint (activeChannelCount r))
                        (unat asioBufferSize) (sampleSize_cfg c) of
                   None \<Rightarrow> None
                 | Some (Inl e) \<Rightarrow> Some (Inl e)
                 | Some (Inr ring') \<Rightarrow> Some (Inr (c\<lparr>sharedBuffer := Some ring'\<rparr>)))))"

text \<open>Lines 148-153: is a notification due for this move of the position?\<close>

definition notification_due :: "DWORD \<Rightarrow> DWORD \<Rightarrow> DWORD \<Rightarrow> DWORD \<Rightarrow> bool" where
  "notification_due notificationCount' positionRegister' nextPositionRegister
       endpointBufferSize =
     ((notificationCount' \<ge> 1 \<and>
       positionRegister' \<ge> endpointBufferSize div 2 \<and>
       nextPositionRegister < endpointBufferSize div 2) \<or>
      (notificationCount' \<ge> 2 \<and>
       nextPositionRegister \<ge> endpointBufferSize div 2 \<and>
       positionRegister' < endpointBufferSize div 2))"

text \<open>
  Lines 122-179: the second read of the generation and what follows it. \<open>r\<close> is the
  snapshot taken before the copy, \<open>c\<close> the state after the copy.
\<close>

definition tick_publish ::
  "sar_h \<Rightarrow> tick_env \<Rightarrow> nat \<Rightarrow> nat \<Rightarrow> SarEndpointRegisters \<Rightarrow> DWORD \<Rightarrow> SarClient
     \<Rightarrow> fault + SarClient" where
  "tick_publish h env bufferIndex i r asioBufferSize c =
     (let frameChunkSize = asioBufferSize * activeChannelCount r;
          nextPositionRegister = (positionRegister r + frameChunkSize) mod bufferSize r;
          lateGeneration' = lateGeneration env i
      in (case asioBuffers_at c bufferIndex i of
            Inl e \<Rightarrow> Inl e
          | Inr bufs \<Rightarrow>
              if \<not> GENERATION_IS_ACTIVE h lateGeneration' \<or>
                 GENERATION_NUMBER h (generation r) \<noteq> GENERATION_NUMBER h lateGeneration'
              then tick_silence bufferIndex i asioBufferSize bufs c
              else if notification_due (notificationCount r) (positionRegister r)
                        nextPositionRegister (bufferSize r)
              then
                (case notificationHandle_at c i of
                   Inl e \<Rightarrow> Inl e
                 | Inr nh \<Rightarrow>
                     (let evt = handle nh; targetGeneration = generation_nh nh
                      in if evt \<noteq> 0 \<and>
                            GENERATION_NUMBER h targetGeneration =
                              GENERATION_NUMBER h (generation r)
                         then
                           (let c1 = oscall (SetEvent evt)
                                       (set_positionRegister i nextPositionRegister c)
                            in Inr (if \<not> SetEvent_ok env evt
                                    then oscall (LOG_ERROR ''SetEvent error'') c1 else c1))
                         else tick_silence bufferIndex i asioBufferSize bufs c))
              else Inr (set_positionRegister i nextPositionRegister c)))"

text \<open>The body of the loop over the endpoints, lines 64-179.\<close>

definition tick_endpoint ::
  "sar_h \<Rightarrow> tick_env \<Rightarrow> nat \<Rightarrow> nat \<Rightarrow> bool \<times> SarClient \<Rightarrow> (bool \<times> SarClient) outcome" where
  "tick_endpoint h env bufferIndex i st =
     (case asioBuffers_at (snd st) bufferIndex i of
        Inl e \<Rightarrow> Some (Inl e)
      | Inr bufs \<Rightarrow>
          (case register_at (snd st) i of
             Inl e \<Rightarrow> Some (Inl e)
           | Inr r \<Rightarrow>
               (let asioBufferSize =
                      (of_nat (periodFrameSize (snd st) * sampleSize_cfg (snd st)) :: DWORD)
                in (case tick_refresh h env i r st of
                      Inl e \<Rightarrow> Some (Inl e)
                    | Inr (hasUpdatedNotificationHandles, c) \<Rightarrow>
                        if \<not> GENERATION_IS_ACTIVE h (generation r) \<or>
                           bufferSize r = 0 \<or>
                           positionRegister r > bufferSize r \<or>
                           bufferOffset r + bufferSize r > sharedBufferSize c
                        then
                          (case tick_silence bufferIndex i asioBufferSize bufs c of
                             Inl e \<Rightarrow> Some (Inl e)
                           | Inr c' \<Rightarrow> Some (Inr (hasUpdatedNotificationHandles, c')))
                        else
                          (case tick_copy bufferIndex i r asioBufferSize bufs c of
                             None \<Rightarrow> None
                           | Some (Inl e) \<Rightarrow> Some (Inl e)
                           | Some (Inr c') \<Rightarrow>
                               (case tick_publish h env bufferIndex i r asioBufferSize c' of
                                  Inl e \<Rightarrow> Some (Inl e)
                                | Inr c'' \<Rightarrow>
                                    Some (Inr (hasUpdatedNotificationHandles, c''))))))))"

text \<open>
  The loop over the endpoints, line 63. \<open>n\<close> is \<^verbatim>\<open>_driverConfig.endpoints.size()\<close>,
  which no statement of tick changes.
\<close>

function tick_loop ::
  "sar_h \<Rightarrow> tick_env \<Rightarrow> nat \<Rightarrow> nat \<Rightarrow> nat \<Rightarrow> bool \<times> SarClient \<Rightarrow> (bool \<times> SarClient) outcome" where
  "tick_loop h env bufferIndex n i st =
     (if i < n then
        (case tick_endpoint h env bufferIndex i st of
           None \<Rightarrow> None
         | Some (Inl e) \<Rightarrow> Some (Inl e)
         | Some (Inr st') \<Rightarrow> tick_loop h env bufferIndex n (i + 1) st')
      else Some (Inr st))"
  by pat_completeness auto
termination
  by (relation "measure (\<lambda>(h, env, b, n, i, st). n - i)") auto

text \<open>
  \<^verbatim>\<open>SarClient::tick\<close>, lines 34-181. The assertion on \<^verbatim>\<open>bufferIndex\<close> is compiled out
  of a release build and has no counterpart here.
\<close>

definition tick :: "sar_h \<Rightarrow> tick_env \<Rightarrow> nat \<Rightarrow> SarClient \<Rightarrow> SarClient outcome" where
  "tick h env bufferIndex c =
     (case registers c of
        None \<Rightarrow> Some (Inr c)
      | Some rs \<Rightarrow>
          (let c1 = (if updateSampleRateOnTick c
                     then oscall (DeviceIoControl (device c) SAR_SEND_FORMAT_CHANGE_EVENT)
                            (c\<lparr>updateSampleRateOnTick := False\<rparr>)
                     else c)
           in (case tick_loop h env bufferIndex (length (endpoints c1)) 0 (False, c1) of
                 None \<Rightarrow> None
               | Some (Inl e) \<Rightarrow> Some (Inl e)
               | Some (Inr st) \<Rightarrow> Some (Inr (snd st)))))"

section \<open>The session lifecycle: \<^verbatim>\<open>SarClient::start\<close> and \<^verbatim>\<open>SarClient::stop\<close>\<close>

text \<open>
  \<^verbatim>\<open>SarClient::stop\<close>, lines 215-248. Unregistering calls through \<^verbatim>\<open>_mmEnumerator\<close>,
  which the source does not test.
\<close>

definition stop :: "SarClient \<Rightarrow> fault + SarClient" where
  "stop c =
     (case (if mmNotificationClientRegistered c then
              (if mmEnumerator c = 0 then Inl NullDereference
               else Inr ((oscall (UnregisterEndpointNotificationCallback (mmEnumerator c)
                                    (mmNotificationClient c)) c)
                         \<lparr>mmNotificationClientRegistered := False\<rparr>))
            else Inr c) of
        Inl e \<Rightarrow> Inl e
      | Inr c1 \<Rightarrow>
          (let c2 = (if mmNotificationClient c1 \<noteq> 0
                     then (oscall (Release (mmNotificationClient c1)) c1)
                          \<lparr>mmNotificationClient := 0\<rparr>
                     else c1);
               c3 = (if mmEnumerator c2 \<noteq> 0 then c2\<lparr>mmEnumerator := 0\<rparr> else c2);
               c4 = (if device c3 \<noteq> INVALID_HANDLE_VALUE
                     then (oscall (CloseHandle (device c3)) (oscall (CancelIoEx (device c3)) c3))
                          \<lparr>device := INVALID_HANDLE_VALUE, registers := None,
                           sharedBuffer := None, sharedBufferSize := 0\<rparr>
                     else c3);
               c5 = (if completionPort c4 \<noteq> 0
                     then (oscall (CloseHandle (completionPort c4)) c4)\<lparr>completionPort := 0\<rparr>
                     else c4)
           in Inr c5))"

text \<open>
  What the operating system and the driver answer to the calls of \<^verbatim>\<open>start\<close>. The
  device-information list of \<^verbatim>\<open>openControlDevice\<close> is local to that function and is
  released on each of its paths; only the outcome of each call is kept.
\<close>

record start_env =
  SetupDiGetClassDevs_ok :: bool
  SetupDiEnumDeviceInterfaces_ok :: bool
  detail_size_ERROR_INSUFFICIENT_BUFFER :: bool
  SetupDiGetDeviceInterfaceDetail_ok :: bool
  CreateFile_result :: HANDLE
  CreateIoCompletionPort_result :: HANDLE
  CoCreateInstance_failed :: bool
  CoCreateInstance_ppv :: HANDLE
  CreateInstance_failed :: bool
  CreateInstance_pp :: HANDLE
  Register_failed :: bool
  setBufferLayout_ok :: bool
  response_sharedBuffer :: ptr
  response_actualSize :: DWORD
  response_registers :: "SarEndpointRegisters list option"
  createEndpoint_ok :: "nat \<Rightarrow> bool"
  registryFilter_ok :: bool

text \<open>\<^verbatim>\<open>SarClient::openControlDevice\<close>, lines 250-318.\<close>

definition openControlDevice :: "start_env \<Rightarrow> SarClient \<Rightarrow> bool \<times> SarClient" where
  "openControlDevice env c =
     (if \<not> SetupDiGetClassDevs_ok env then (False, c)
      else if \<not> SetupDiEnumDeviceInterfaces_ok env then (False, c)
      else if \<not> detail_size_ERROR_INSUFFICIENT_BUFFER env then (False, c)
      else if \<not> SetupDiGetDeviceInterfaceDetail_ok env then (False, c)
      else
        (let c1 = c\<lparr>device := CreateFile_result env\<rparr>
         in if device c1 = INVALID_HANDLE_VALUE then (False, c1)
            else
              (let c2 = c1\<lparr>completionPort := CreateIoCompletionPort_result env\<rparr>
               in if completionPort c2 = 0
                  then (False, (oscall (CloseHandle (device c2)) c2)\<lparr>device := 0\<rparr>)
                  else (True,
                        c2\<lparr>notificationHandles :=
                             replicate (length (endpoints c2))
                               \<lparr>generation_nh = 0, handle = 0\<rparr>\<rparr>))))"

text \<open>\<^verbatim>\<open>SarClient::openMmNotificationClient\<close>, lines 320-346.\<close>

definition openMmNotificationClient :: "start_env \<Rightarrow> SarClient \<Rightarrow> fault + bool \<times> SarClient" where
  "openMmNotificationClient env c =
     (let c1 = c\<lparr>mmEnumerator := CoCreateInstance_ppv env\<rparr>
      in if CoCreateInstance_failed env then Inr (False, c1)
         else
           (let c2 = c1\<lparr>mmNotificationClient := CreateInstance_pp env\<rparr>
            in if CreateInstance_failed env then Inr (False, c2)
               else if mmNotificationClient c2 = 0 then Inl NullDereference
               else
                 (let c3 = oscall (AddRef (mmNotificationClient c2)) c2
                  in if mmEnumerator c3 = 0 then Inl NullDereference
                     else
                       (let c4 = oscall (RegisterEndpointNotificationCallback (mmEnumerator c3)
                                           (mmNotificationClient c3)) c3
                        in if Register_failed env then Inr (False, c4)
                           else Inr (True, c4\<lparr>mmNotificationClientRegistered := True\<rparr>)))))"

text \<open>\<^verbatim>\<open>SarClient::setBufferLayout\<close>, lines 348-376.\<close>

definition setBufferLayout :: "start_env \<Rightarrow> SarClient \<Rightarrow> bool \<times> SarClient" where
  "setBufferLayout env c =
     (let c1 = oscall (DeviceIoControl (device c) SAR_SET_BUFFER_LAYOUT) c
      in if \<not> setBufferLayout_ok env then (False, c1)
         else (True, c1\<lparr>sharedBuffer := response_sharedBuffer env,
                         sharedBufferSize := response_actualSize env,
                         registers := response_registers env\<rparr>))"

text \<open>
  \<^verbatim>\<open>SarClient::createEndpoints\<close>, lines 378-403: one request for each endpoint, in the
  order of the list; \<open>i\<close> is the index sent with the request.
\<close>

fun createEndpoints_loop ::
  "start_env \<Rightarrow> nat \<Rightarrow> EndpointType list \<Rightarrow> SarClient \<Rightarrow> bool \<times> SarClient" where
  "createEndpoints_loop env i [] c = (True, c)"
| "createEndpoints_loop env i (endpoint # rest) c =
     (let c1 = oscall (DeviceIoControl (device c) SAR_CREATE_ENDPOINT) c
      in if \<not> createEndpoint_ok env i
         then (False, oscall (LOG_ERROR ''Endpoint creation failed.'') c1)
         else createEndpoints_loop env (i + 1) rest c1)"

definition createEndpoints :: "start_env \<Rightarrow> SarClient \<Rightarrow> bool \<times> SarClient" where
  "createEndpoints env c = createEndpoints_loop env 0 (endpoints c) c"

text \<open>\<^verbatim>\<open>SarClient::enableRegistryFilter\<close>, lines 405-411.\<close>

definition enableRegistryFilter :: "start_env \<Rightarrow> SarClient \<Rightarrow> bool \<times> SarClient" where
  "enableRegistryFilter env c =
     (registryFilter_ok env, oscall (DeviceIoControl (device c) SAR_START_REGISTRY_FILTER) c)"

text \<open>\<^verbatim>\<open>SarClient::start\<close>, lines 183-213.\<close>

definition start :: "start_env \<Rightarrow> SarClient \<Rightarrow> fault + bool \<times> SarClient" where
  "start env c =
     (case openControlDevice env c of
        (ok1, c1) \<Rightarrow>
          if \<not> ok1 then Inr (False, oscall (LOG_ERROR ''Couldn't open control device'') c1)
          else
            (case openMmNotificationClient env c1 of
               Inl e \<Rightarrow> Inl e
             | Inr (ok2, c2) \<Rightarrow>
                 if \<not> ok2 then
                   (case stop (oscall (LOG_ERROR ''Couldn't open MMDevice notification client'')
                                 c2) of
                      Inl e \<Rightarrow> Inl e
                    | Inr c' \<Rightarrow> Inr (False, c'))
                 else
                   (case setBufferLayout env c2 of
                      (ok3, c3) \<Rightarrow>
                        if \<not> ok3 then
                          (case stop (oscall (LOG_ERROR ''Couldn't set layout'') c3) of
                             Inl e \<Rightarrow> Inl e
                           | Inr c' \<Rightarrow> Inr (False, c'))
                        else
                          (case createEndpoints env c3 of
                             (ok4, c4) \<Rightarrow>
                               if \<not> ok4 then
                                 (case stop (oscall (LOG_ERROR ''Couldn't create endpoints'')
                                               c4) of
                                    Inl e \<Rightarrow> Inl e
                                  | Inr c' \<Rightarrow> Inr (False, c'))
                               else if enableApplicationRouting c4 then
                                 (case enableRegistryFilter env c4 of
                                    (ok5, c5) \<Rightarrow>
                                      Inr (True,
                                           if \<not> ok5
                                           then oscall
                                                  (LOG_ERROR ''Couldn't enable registry filter'')
                                                  c5
                                           else c5))
                               else Inr (True, c4)))))"

section \<open>Notions used to state the properties\<close>

text \<open>
  The ring address of sample \<open>k\<close> of channel \<open>i\<close>, and the bytes left in the current segment
  before sample \<open>k\<close> is copied, when the copy proceeds through the first segment and then
  through the second. \<open>st\<close> is the stride of one interleaved frame.
\<close>

definition sample_address :: "nat \<Rightarrow> nat \<Rightarrow> nat \<Rightarrow> nat \<Rightarrow> nat \<Rightarrow> nat \<Rightarrow> nat \<Rightarrow> nat" where
  "sample_address f fs s st ss i k =
     (if k * st < fs then f + k * st + ss * i else s + (k * st - fs) + ss * i)"

definition remaining_at :: "nat \<Rightarrow> nat \<Rightarrow> nat \<Rightarrow> nat \<Rightarrow> nat" where
  "remaining_at fs sz st k = (if k * st < fs then fs - k * st else fs + sz - k * st)"

text \<open>
  The splits on which the loops of the codec reach all \<open>N\<close> frames: the frames all fit
  in the first segment, or the first segment is not empty and holds a whole number of
  frames and the two segments together hold all of them. This asks more than room for
  \<open>N\<close> frames in the two segments together: the loops leave the first segment only when
  its last byte has been used, and do not enter the second one otherwise (lines 501-513
  and 545-556).
\<close>

definition whole_frames_capacity :: "nat \<Rightarrow> nat \<Rightarrow> nat \<Rightarrow> nat \<Rightarrow> bool" where
  "whole_frames_capacity fs sz st N =
     (N * st \<le> fs \<or> (0 < fs \<and> st dvd fs \<and> N * st \<le> fs + sz))"

text \<open>
  A buffer that holds the same byte everywhere, the first \<open>n\<close> bytes of each buffer of a
  list, and the round trip through the ring: mux of the sources, then demux of the ring
  that mux left into the targets, with the same segments and sizes and as many channels
  as there are sources; the result is what the targets hold afterwards.
\<close>

definition constant_buffer :: "byte \<Rightarrow> buffer" where
  "constant_buffer v = (\<lambda>x. v)"

definition read_buffers :: "nat \<Rightarrow> ptr list \<Rightarrow> byte list list" where
  "read_buffers n bufs = map (\<lambda>p. case p of None \<Rightarrow> [] | Some t \<Rightarrow> map t [0..<n]) bufs"

definition round_trip ::
  "buffer \<Rightarrow> nat \<Rightarrow> nat \<Rightarrow> nat \<Rightarrow> nat \<Rightarrow> buffer list \<Rightarrow> buffer list \<Rightarrow> nat \<Rightarrow> nat
     \<Rightarrow> byte list list option" where
  "round_trip ring muxBufferFirst firstSize muxBufferSecond secondSize sources targets
       targetSize sampleSize =
     (case mux ring muxBufferFirst firstSize muxBufferSecond secondSize (map Some sources)
             (int (length sources)) (int (length sources)) targetSize sampleSize of
        Some (Inr ring') \<Rightarrow>
          (case demux ring' muxBufferFirst firstSize muxBufferSecond secondSize
                  (map Some targets) (int (length sources)) (int (length sources))
                  targetSize sampleSize of
             Some (Inr res) \<Rightarrow> Some (read_buffers targetSize res)
           | _ \<Rightarrow> None)
      | _ \<Rightarrow> None)"

subsection \<open>Notions for the tick\<close>

text \<open>
  The part of the session state that belongs to endpoint \<open>i\<close>, the endpoint a response
  of the handle queue is addressed to (the high half of \<^verbatim>\<open>associatedData\<close>, line 471), and
  whether the driver delivers a handle for endpoint \<open>i\<close> during the tick.
\<close>

definition endpoint_view ::
  "nat \<Rightarrow> nat \<Rightarrow> SarClient \<Rightarrow>
     (fault + SarEndpointRegisters) \<times> (fault + ptr list) \<times> nat \<times> nat \<times> DWORD \<times> EndpointType list" where
  "endpoint_view b i c =
     (register_at c i, asioBuffers_at c b i, periodFrameSize c, sampleSize_cfg c,
      sharedBufferSize c, endpoints c)"

definition response_endpointIndex :: "SarHandleQueueResponse \<Rightarrow> nat" where
  "response_endpointIndex r = unat (ucast (drop_bit 32 (associatedData r)) :: DWORD)"

definition delivers_to :: "tick_env \<Rightarrow> nat \<Rightarrow> bool" where
  "delivers_to env i =
     (\<exists>r \<in> set (gqcs_responses env) \<union> set (wait_responses env). response_endpointIndex r = i)"

text \<open>
  What the handle manager may do to the state: replace handles, never the one of an
  endpoint no response is addressed to, set the flag of the outstanding request, and make
  calls to the operating system.
\<close>

definition handles_changed :: "tick_env \<Rightarrow> nat \<Rightarrow> SarClient \<Rightarrow> SarClient \<Rightarrow> bool" where
  "handles_changed env i c c' =
     (\<exists>H Q L. c' = c\<lparr>notificationHandles := H, handleQueueStarted := Q,
                        oscalls := oscalls c @ L\<rparr> \<and>
           length H = length (notificationHandles c) \<and>
           (\<not> delivers_to env i \<longrightarrow> H ! i = notificationHandles c ! i))"

text \<open>
  What the iteration for endpoint \<open>j\<close> may do to the state, seen from endpoint \<open>i\<close>: the
  configuration stays, the registers and host buffers of the other endpoints stay, a
  handle stays unless one is delivered for it, and calls are only added to the log.
\<close>

definition step_frame :: "tick_env \<Rightarrow> nat \<Rightarrow> nat \<Rightarrow> nat \<Rightarrow> SarClient \<Rightarrow> SarClient \<Rightarrow> bool" where
  "step_frame env b j i c c' =
     (periodFrameSize c' = periodFrameSize c \<and> sampleSize_cfg c' = sampleSize_cfg c \<and>
      sharedBufferSize c' = sharedBufferSize c \<and> endpoints c' = endpoints c \<and>
      (registers c' = None \<longleftrightarrow> registers c = None) \<and>
      (i \<noteq> j \<longrightarrow> register_at c' i = register_at c i \<and>
                 asioBuffers_at c' b i = asioBuffers_at c b i) \<and>
      (\<not> delivers_to env i \<longrightarrow> notificationHandle_at c' i = notificationHandle_at c i) \<and>
      (\<exists>L. oscalls c' = oscalls c @ L))"

text \<open>
  The tests of tick, named: the second read of the generation contradicts the first
  (lines 124-126), the endpoint takes the silence path (lines 86-89), the position after
  the copy (lines 99-100), the cached handle is usable (lines 158-160). \<open>silenced\<close> relates
  the host buffers of an endpoint before and after they were filled with silence over
  \<open>n\<close> bytes: null entries stay null, the others hold zeroes.
\<close>

definition generation_race :: "sar_h \<Rightarrow> DWORD \<Rightarrow> DWORD \<Rightarrow> bool" where
  "generation_race h generation' lateGeneration' =
     (\<not> GENERATION_IS_ACTIVE h lateGeneration' \<or>
      GENERATION_NUMBER h generation' \<noteq> GENERATION_NUMBER h lateGeneration')"

definition silence_path :: "sar_h \<Rightarrow> SarEndpointRegisters \<Rightarrow> DWORD \<Rightarrow> bool" where
  "silence_path h r sharedBufferSize' =
     (\<not> GENERATION_IS_ACTIVE h (generation r) \<or> bufferSize r = 0 \<or>
      positionRegister r > bufferSize r \<or>
      bufferOffset r + bufferSize r > sharedBufferSize')"

definition nextPosition :: "SarEndpointRegisters \<Rightarrow> DWORD \<Rightarrow> DWORD" where
  "nextPosition r asioBufferSize =
     (positionRegister r + asioBufferSize * activeChannelCount r) mod bufferSize r"

definition handle_valid :: "sar_h \<Rightarrow> SarEndpointRegisters \<Rightarrow> NotificationHandle \<Rightarrow> bool" where
  "handle_valid h r nh =
     (handle nh \<noteq> 0 \<and>
      GENERATION_NUMBER h (generation_nh nh) = GENERATION_NUMBER h (generation r))"

definition silenced :: "nat \<Rightarrow> ptr list \<Rightarrow> ptr list \<Rightarrow> bool" where
  "silenced n before after =
     (length after = length before \<and>
      (\<forall>k<length before.
         case before ! k of
           None \<Rightarrow> after ! k = None
         | Some t \<Rightarrow> (\<exists>t'. after ! k = Some t' \<and> (\<forall>x<n. t' x = 0))))"

text \<open>
  A session on which a tick meets no index out of range and no null ring: the sample
  size is not zero, the host passed buffers for every endpoint, the register array and
  the handle table have an entry for every endpoint, the ring is mapped, and the driver
  reports no more responses than it wrote, each for an endpoint of the table. \<open>layout\<close>
  collects what these conditions depend on.
\<close>

definition env_in_range :: "sar_h \<Rightarrow> tick_env \<Rightarrow> nat \<Rightarrow> bool" where
  "env_in_range h env m =
     (unat (gqcs_bytes env) div sizeof_SarHandleQueueResponse h \<le> length (gqcs_responses env) \<and>
      wait_InternalHigh env div sizeof_SarHandleQueueResponse h \<le> length (wait_responses env) \<and>
      (\<forall>r \<in> set (gqcs_responses env) \<union> set (wait_responses env).
          response_endpointIndex r < m))"

definition tick_ready :: "sar_h \<Rightarrow> tick_env \<Rightarrow> nat \<Rightarrow> SarClient \<Rightarrow> bool" where
  "tick_ready h env b c =
     (0 < sampleSize_cfg c \<and> b < length (asioBuffers c) \<and>
      length (endpoints c) \<le> length (asioBuffers c ! b) \<and>
      (case registers c of None \<Rightarrow> True | Some rs \<Rightarrow> length (endpoints c) \<le> length rs) \<and>
      length (endpoints c) \<le> length (notificationHandles c) \<and>
      sharedBuffer c \<noteq> None \<and>
      env_in_range h env (length (notificationHandles c)))"

definition layout ::
  "SarClient \<Rightarrow> nat \<times> bool \<times> nat list \<times> nat option \<times> nat \<times> nat \<times> EndpointType list" where
  "layout c =
     (length (notificationHandles c), sharedBuffer c = None, map length (asioBuffers c),
      map_option length (registers c), periodFrameSize c, sampleSize_cfg c, endpoints c)"

text \<open>
  The session with other values in the registers \<^verbatim>\<open>bufferOffset\<close> and \<^verbatim>\<open>bufferSize\<close> of
  endpoint \<open>i\<close>, and the test that the generation of endpoint \<open>i\<close> has its active bit
  unset.
\<close>

definition with_buffer_registers :: "nat \<Rightarrow> DWORD \<Rightarrow> DWORD \<Rightarrow> SarClient \<Rightarrow> SarClient" where
  "with_buffer_registers i offset size' c =
     c\<lparr>registers :=
         map_option (\<lambda>rs. rs[i := (rs ! i)\<lparr>bufferOffset := offset, bufferSize := size'\<rparr>])
           (registers c)\<rparr>"

definition inactive_at :: "sar_h \<Rightarrow> nat \<Rightarrow> SarClient \<Rightarrow> bool" where
  "inactive_at h i c =
     (case register_at c i of Inl e \<Rightarrow> True | Inr r \<Rightarrow> \<not> GENERATION_IS_ACTIVE h (generation r))"

subsection \<open>Concrete sessions\<close>

text \<open>
  A session with one playback endpoint of two channels on a ring of 16 bytes, with three
  host buffers, the second of them null, and a period of two samples of two bytes; and a
  driver that delivers no handle and answers \<open>late\<close> to the second read of the
  generation.
\<close>

definition small_registers :: "DWORD \<Rightarrow> DWORD \<Rightarrow> SarEndpointRegisters" where
  "small_registers g p =
     \<lparr> generation = g, activeChannelCount = 2, bufferOffset = 0, bufferSize = 16,
       positionRegister = p, notificationCount = 1 \<rparr>"

definition small_client :: "DWORD \<Rightarrow> DWORD \<Rightarrow> NotificationHandle \<Rightarrow> SarClient" where
  "small_client g p nh =
     \<lparr> endpoints = [Playback], enableApplicationRouting = False,
       periodFrameSize = 2, sampleSize_cfg = 2,
       asioBuffers = [[[Some (\<lambda>x. 255), None, Some (\<lambda>x. 255)]]],
       device = 3, completionPort = 4, handleQueueStarted = False,
       registers = Some [small_registers g p],
       sharedBuffer = Some (\<lambda>x. of_nat x), sharedBufferSize = 64,
       notificationHandles = [nh],
       updateSampleRateOnTick = False, mmNotificationClientRegistered = True,
       mmNotificationClient = 5, mmEnumerator = 6, oscalls = [] \<rparr>"

definition quiet_env :: "DWORD \<Rightarrow> tick_env" where
  "quiet_env late =
     \<lparr> lateGeneration = (\<lambda>i. late), gqcs_success = False, gqcs_bytes = 0,
       gqcs_overlapped = False, gqcs_responses = [], wait_status = False,
       wait_error = 997, wait_InternalHigh = 0, wait_responses = [],
       SetEvent_ok = (\<lambda>h. True) \<rparr>"

text \<open>
  The same session with a ring of 24 bytes, the position at 0 and a channel count of
  \<^verbatim>\<open>0x80000001\<close> in the register, for which the product with the four bytes of a period
  does not fit in 32 bits.
\<close>

definition wrap_registers :: SarEndpointRegisters where
  "wrap_registers =
     \<lparr> generation = 0x80000001, activeChannelCount = 0x80000001, bufferOffset = 0,
       bufferSize = 24, positionRegister = 0, notificationCount = 1 \<rparr>"

definition wrap_client :: SarClient where
  "wrap_client =
     (small_client 0x80000001 0 \<lparr>generation_nh = 1, handle = 7\<rparr>)
       \<lparr>registers := Some [wrap_registers]\<rparr>"

text \<open>
  The scenario of a ring of 1024 bytes with the position at 512, two channels and a
  period of 75 samples of four bytes, which makes a frame chunk of 600 bytes.
\<close>

definition scenario_registers :: SarEndpointRegisters where
  "scenario_registers =
     \<lparr> generation = 0x80000001, activeChannelCount = 2, bufferOffset = 0, bufferSize = 1024,
       positionRegister = 512, notificationCount = 1 \<rparr>"

definition scenario_client :: "NotificationHandle \<Rightarrow> SarClient" where
  "scenario_client nh =
     \<lparr> endpoints = [Playback], enableApplicationRouting = False,
       periodFrameSize = 75, sampleSize_cfg = 4,
       asioBuffers = [[[Some (\<lambda>x. 255), Some (\<lambda>x. 255)]]],
       device = 3, completionPort = 4, handleQueueStarted = False,
       registers = Some [scenario_registers],
       sharedBuffer = Some (\<lambda>x. of_nat x), sharedBufferSize = 1024,
       notificationHandles = [nh],
       updateSampleRateOnTick = False, mmNotificationClientRegistered = True,
       mmNotificationClient = 5, mmEnumerator = 6, oscalls = [] \<rparr>"

text \<open>What is looked at after a tick: the position registers and the calls made.\<close>

definition position_registers :: "SarClient \<Rightarrow> DWORD list" where
  "position_registers c =
     (case registers c of None \<Rightarrow> [] | Some rs \<Rightarrow> map positionRegister rs)"

definition observed :: "SarClient outcome \<Rightarrow> (DWORD list \<times> os_call list) option" where
  "observed out =
     (case out of
        Some (Inr c') \<Rightarrow> Some (position_registers c', oscalls c')
      | _ \<Rightarrow> None)"

subsection \<open>Notions for the session lifecycle\<close>

text \<open>
  The state \<^verbatim>\<open>stop\<close> leaves: no device, no completion port, no notification client, no
  enumerator; and the shared region unmapped.
\<close>

definition torn_down :: "SarClient \<Rightarrow> bool" where
  "torn_down c =
     (device c = INVALID_HANDLE_VALUE \<and> completionPort c = 0 \<and>
      \<not> mmNotificationClientRegistered c \<and> mmNotificationClient c = 0 \<and>
      mmEnumerator c = 0)"


text \<open>
  A session as the constructor leaves it (lines 23-32), a session that has been
  started, and answers of the operating system to \<^verbatim>\<open>start\<close>: all calls succeed, the
  creation of the completion port fails, the layout request fails.
\<close>

definition fresh_client :: SarClient where
  "fresh_client =
     \<lparr> endpoints = [Playback, Recording], enableApplicationRouting = False,
       periodFrameSize = 2, sampleSize_cfg = 2, asioBuffers = [],
       device = INVALID_HANDLE_VALUE, completionPort = 0, handleQueueStarted = False,
       registers = None, sharedBuffer = None, sharedBufferSize = 0,
       notificationHandles = [],
       updateSampleRateOnTick = False, mmNotificationClientRegistered = False,
       mmNotificationClient = 0, mmEnumerator = 0, oscalls = [] \<rparr>"

definition running_client :: SarClient where
  "running_client =
     fresh_client\<lparr> device := 3, completionPort := 4,
       registers := Some [], sharedBuffer := Some (\<lambda>x. 0), sharedBufferSize := 64,
       mmNotificationClientRegistered := True, mmNotificationClient := 5,
       mmEnumerator := 6 \<rparr>"





section \<open>Properties of the codec\<close>

declare demux_channels.simps [simp del] mux_channels.simps [simp del] zero_targets.simps [simp del]


subsection \<open>The memory primitives on a non-null pointer\<close>

lemma memcpy_to_target_Some:
  "memcpy_to_target (Some t) j ring buf n =
     Inr (Some (\<lambda>x. if j \<le> x \<and> x < j + n then ring (buf + (x - j)) else t x))"
  by (simp add: memcpy_to_target_def)

lemma memcpy_from_target_Some:
  "memcpy_from_target ring buf (Some t) j n =
     Inr (\<lambda>x. if buf \<le> x \<and> x < buf + n then t (j + (x - buf)) else ring x)"
  by (simp add: memcpy_from_target_def)

subsection \<open>The inner loops\<close>

lemma demux_loop_nonnull_aux:
  assumes "demux_loop ring s ssz T st ss j buf rem target = Some r"
  shows "target \<noteq> None \<longrightarrow> (\<exists>t'. r = Inr (Some t'))"
proof (rule demux_loop.raw_induct[where P = "\<lambda>ring s ssz T st ss j buf rem target r.
          target \<noteq> None \<longrightarrow> (\<exists>t'. r = Inr (Some t'))", OF _ assms])
  fix dl :: "buffer \<Rightarrow> nat \<Rightarrow> nat \<Rightarrow> nat \<Rightarrow> nat \<Rightarrow> nat \<Rightarrow> nat \<Rightarrow> nat \<Rightarrow> nat \<Rightarrow> ptr \<Rightarrow> ptr outcome"
    and ring s ssz T st ss j buf rem target r
  assume IH: "\<And>ring s ssz T st ss j buf rem target r.
      dl ring s ssz T st ss j buf rem target = Some r \<Longrightarrow>
      target \<noteq> None \<longrightarrow> (\<exists>t'. r = Inr (Some t'))"
  assume eq: "(if j < T \<and> st \<le> rem
      then case memcpy_to_target target j ring buf ss of
           Inl e \<Rightarrow> Some (Inl e)
           | Inr target' \<Rightarrow>
               if rem - st = 0
               then dl ring s ssz T st ss (j + ss) s ssz target'
               else dl ring s ssz T st ss (j + ss) (buf + st) (rem - st) target'
      else Some (Inr target)) = Some r"
  show "target \<noteq> None \<longrightarrow> (\<exists>t'. r = Inr (Some t'))"
  proof
    assume "target \<noteq> None"
    then obtain t where t: "target = Some t" by auto
    show "\<exists>t'. r = Inr (Some t')"
    proof (cases "j < T \<and> st \<le> rem")
      case False
      from eq have "Some (Inr target) = Some r" unfolding if_not_P[OF False] .
      with t show ?thesis by auto
    next
      case True
      note e = eq[unfolded if_P[OF True] t memcpy_to_target_Some sum.case]
      show ?thesis
      proof (cases "rem - st = 0")
        case z: True
        from IH[OF e[unfolded if_P[OF z]]] show ?thesis by simp
      next
        case z: False
        from IH[OF e[unfolded if_not_P[OF z]]] show ?thesis by simp
      qed
    qed
  qed
qed

lemma demux_loop_nonnull:
  "demux_loop ring s ssz T st ss j buf rem (Some t) = Some r \<Longrightarrow> \<exists>t'. r = Inr (Some t')"
  using demux_loop_nonnull_aux by blast

lemma mux_loop_nonnull_aux:
  assumes "mux_loop target s ssz T st ss j buf rem ring = Some r"
  shows "target \<noteq> None \<longrightarrow> (\<exists>ring'. r = Inr ring')"
proof (rule mux_loop.raw_induct[where P = "\<lambda>target s ssz T st ss j buf rem ring r.
          target \<noteq> None \<longrightarrow> (\<exists>ring'. r = Inr ring')", OF _ assms])
  fix ml :: "ptr \<Rightarrow> nat \<Rightarrow> nat \<Rightarrow> nat \<Rightarrow> nat \<Rightarrow> nat \<Rightarrow> nat \<Rightarrow> nat \<Rightarrow> nat \<Rightarrow> buffer \<Rightarrow> buffer outcome"
    and target s ssz T st ss j buf rem ring r
  assume IH: "\<And>target s ssz T st ss j buf rem ring r.
      ml target s ssz T st ss j buf rem ring = Some r \<Longrightarrow>
      target \<noteq> None \<longrightarrow> (\<exists>ring'. r = Inr ring')"
  assume eq: "(if j < T \<and> st \<le> rem
      then case memcpy_from_target ring buf target j ss of
           Inl e \<Rightarrow> Some (Inl e)
           | Inr ring' \<Rightarrow>
               if rem - st = 0
               then ml target s ssz T st ss (j + ss) s ssz ring'
               else ml target s ssz T st ss (j + ss) (buf + st) (rem - st) ring'
      else Some (Inr ring)) = Some r"
  show "target \<noteq> None \<longrightarrow> (\<exists>ring'. r = Inr ring')"
  proof
    assume nn: "target \<noteq> None"
    then obtain t where t: "target = Some t" by auto
    show "\<exists>ring'. r = Inr ring'"
    proof (cases "j < T \<and> st \<le> rem")
      case False
      from eq have "Some (Inr ring) = Some r" unfolding if_not_P[OF False] .
      then show ?thesis by auto
    next
      case True
      note e = eq[unfolded if_P[OF True] t memcpy_from_target_Some sum.case]
      show ?thesis
      proof (cases "rem - st = 0")
        case z: True
        from IH[OF e[unfolded if_P[OF z]]] show ?thesis by simp
      next
        case z: False
        from IH[OF e[unfolded if_not_P[OF z]]] show ?thesis by simp
      qed
    qed
  qed
qed

lemma mux_loop_nonnull:
  "mux_loop (Some t) s ssz T st ss j buf rem ring = Some r \<Longrightarrow> \<exists>ring'. r = Inr ring'"
  using mux_loop_nonnull_aux by blast

lemma demux_loop_total:
  assumes "0 < ss"
  shows "\<exists>t'. demux_loop ring s ssz T st ss j buf rem (Some t) = Some (Inr (Some t'))"
proof (induction "T - j" arbitrary: j buf rem t rule: less_induct)
  case less
  show ?case
  proof (cases "j < T \<and> st \<le> rem")
    case False
    then show ?thesis by (subst demux_loop.simps) auto
  next
    case True
    with assms have d: "T - (j + ss) < T - j" by linarith
    show ?thesis
      using True less[OF d]
      by (subst demux_loop.simps) (simp add: memcpy_to_target_Some)
  qed
qed

lemma mux_loop_total:
  assumes "0 < ss"
  shows "\<exists>ring'. mux_loop (Some t) s ssz T st ss j buf rem ring = Some (Inr ring')"
proof (induction "T - j" arbitrary: j buf rem ring rule: less_induct)
  case less
  show ?case
  proof (cases "j < T \<and> st \<le> rem")
    case False
    then show ?thesis by (subst mux_loop.simps) auto
  next
    case True
    with assms have d: "T - (j + ss) < T - j" by linarith
    show ?thesis
      using True less[OF d]
      by (subst mux_loop.simps) (simp add: memcpy_from_target_Some)
  qed
qed

subsection \<open>The loops over the channels\<close>

lemma demux_channels_done:
  "\<not> int i < ns \<Longrightarrow> demux_channels ring f fs s sz T st ss ns i tbs = Some (Inr (i, tbs))"
  by (subst demux_channels.simps) simp

lemma demux_channels_oob:
  "int i < ns \<Longrightarrow> \<not> i < length tbs \<Longrightarrow>
   demux_channels ring f fs s sz T st ss ns i tbs = Some (Inl IndexOutOfRange)"
  by (subst demux_channels.simps) (simp add: target_at_def)

lemma demux_channels_skip:
  "int i < ns \<Longrightarrow> i < length tbs \<Longrightarrow> tbs ! i = None \<Longrightarrow>
   demux_channels ring f fs s sz T st ss ns i tbs =
   demux_channels ring f fs s sz T st ss ns (i + 1) tbs"
  by (subst demux_channels.simps) (simp add: target_at_def)

lemma demux_channels_step:
  "int i < ns \<Longrightarrow> i < length tbs \<Longrightarrow> tbs ! i = Some t \<Longrightarrow>
   demux_channels ring f fs s sz T st ss ns i tbs =
   (case demux_loop ring (s + ss * i) sz T st ss 0 (f + ss * i) fs (Some t) of
      None \<Rightarrow> None
    | Some (Inl e) \<Rightarrow> Some (Inl e)
    | Some (Inr t') \<Rightarrow> demux_channels ring f fs s sz T st ss ns (i + 1) (tbs[i := t']))"
  by (subst demux_channels.simps) (simp add: target_at_def)

lemma demux_channels_no_null:
  "demux_channels ring f fs s sz T st ss ns i tbs \<noteq> Some (Inl NullDereference)"
proof (induction "nat (ns - int i)" arbitrary: i tbs rule: less_induct)
  case less
  show ?case
  proof (cases "int i < ns")
    case False
    then show ?thesis by (simp add: demux_channels_done)
  next
    case True
    then have m: "nat (ns - int (i + 1)) < nat (ns - int i)" by linarith
    show ?thesis
    proof (cases "i < length tbs")
      case False
      with True show ?thesis by (simp add: demux_channels_oob)
    next
      case il: True
      show ?thesis
      proof (cases "tbs ! i")
        case None
        with True il less.hyps[OF m] show ?thesis by (simp add: demux_channels_skip)
      next
        case (Some t)
        show ?thesis
        proof (cases "demux_loop ring (s + ss * i) sz T st ss 0 (f + ss * i) fs (Some t)")
          case None
          then show ?thesis by (simp add: demux_channels_step[OF True il Some])
        next
          case (Some r1)
          from demux_loop_nonnull[OF Some] obtain t' where "r1 = Inr (Some t')" by blast
          with Some less.hyps[OF m, of "tbs[i := Some t']"] show ?thesis
            by (simp add: demux_channels_step[OF True il \<open>tbs ! i = Some t\<close>])
        qed
      qed
    qed
  qed
qed

lemma demux_channels_shape:
  "demux_channels ring f fs s sz T st ss ns i tbs = Some (Inr (i', tbs')) \<Longrightarrow>
     length tbs' = length tbs \<and> i' = max i (nat ns) \<and>
     (\<forall>k. (tbs' ! k = None \<longleftrightarrow> tbs ! k = None) \<and>
          (k < i \<or> ns \<le> int k \<longrightarrow> tbs' ! k = tbs ! k))"
proof (induction "nat (ns - int i)" arbitrary: i tbs rule: less_induct)
  case less
  note eq = less.prems
  show ?case
  proof (cases "int i < ns")
    case False
    with eq have "i' = i" "tbs' = tbs" by (simp_all add: demux_channels_done)
    with False show ?thesis by simp
  next
    case True
    then have m: "nat (ns - int (i + 1)) < nat (ns - int i)" by linarith
    from True have mx: "max (i + 1) (nat ns) = max i (nat ns)" by linarith
    show ?thesis
    proof (cases "i < length tbs")
      case False
      with True eq show ?thesis by (simp add: demux_channels_oob)
    next
      case il: True
      show ?thesis
      proof (cases "tbs ! i")
        case None
        with True il eq
        have "demux_channels ring f fs s sz T st ss ns (i + 1) tbs = Some (Inr (i', tbs'))"
          by (simp add: demux_channels_skip)
        from less.hyps[OF m this] have
          l: "length tbs' = length tbs" and i': "i' = max (i + 1) (nat ns)" and
          k: "\<And>k. (tbs' ! k = None \<longleftrightarrow> tbs ! k = None) \<and>
                  (k < i + 1 \<or> ns \<le> int k \<longrightarrow> tbs' ! k = tbs ! k)"
          by blast+
        have "(tbs' ! k = None \<longleftrightarrow> tbs ! k = None) \<and>
              (k < i \<or> ns \<le> int k \<longrightarrow> tbs' ! k = tbs ! k)" for k
          using k[of k] by simp
        with l i' mx show ?thesis by simp
      next
        case (Some t)
        note e2 = eq[unfolded demux_channels_step[OF True il Some]]
        show ?thesis
        proof (cases "demux_loop ring (s + ss * i) sz T st ss 0 (f + ss * i) fs (Some t)")
          case None
          with e2 show ?thesis by simp
        next
          case (Some r1)
          from demux_loop_nonnull[OF Some] obtain t' where r1: "r1 = Inr (Some t')" by blast
          from e2 Some r1
          have "demux_channels ring f fs s sz T st ss ns (i + 1) (tbs[i := Some t']) =
                  Some (Inr (i', tbs'))"
            by simp
          from less.hyps[OF m this] have
            l: "length tbs' = length tbs" and i': "i' = max (i + 1) (nat ns)" and
            k: "\<And>k. (tbs' ! k = None \<longleftrightarrow> (tbs[i := Some t']) ! k = None) \<and>
                    (k < i + 1 \<or> ns \<le> int k \<longrightarrow> tbs' ! k = (tbs[i := Some t']) ! k)"
            by simp_all
          have "(tbs' ! k = None \<longleftrightarrow> tbs ! k = None) \<and>
                (k < i \<or> ns \<le> int k \<longrightarrow> tbs' ! k = tbs ! k)" for k
          proof (cases "k = i")
            case True
            with k[of i] il \<open>tbs ! i = Some t\<close> \<open>int i < ns\<close> show ?thesis by simp
          next
            case False
            with k[of k] show ?thesis by simp
          qed
          with l i' mx show ?thesis by simp
        qed
      qed
    qed
  qed
qed

lemma demux_channels_total:
  assumes "0 < ss"
  shows "ns \<le> int (length tbs) \<Longrightarrow>
     \<exists>i' tbs'. demux_channels ring f fs s sz T st ss ns i tbs = Some (Inr (i', tbs'))"
proof (induction "nat (ns - int i)" arbitrary: i tbs rule: less_induct)
  case less
  show ?case
  proof (cases "int i < ns")
    case False
    then show ?thesis by (simp add: demux_channels_done)
  next
    case True
    then have m: "nat (ns - int (i + 1)) < nat (ns - int i)" by linarith
    from True less.prems have il: "i < length tbs" by linarith
    show ?thesis
    proof (cases "tbs ! i")
      case None
      with True il less.hyps[OF m less.prems] show ?thesis
        by (simp add: demux_channels_skip)
    next
      case (Some t)
      from demux_loop_total[OF assms] obtain t' where
        "demux_loop ring (s + ss * i) sz T st ss 0 (f + ss * i) fs (Some t) = Some (Inr (Some t'))"
        by blast
      moreover have "ns \<le> int (length (tbs[i := Some t']))" using less.prems by simp
      ultimately show ?thesis
        using less.hyps[OF m, of "tbs[i := Some t']"] 
        by (simp add: demux_channels_step[OF True il Some])
    qed
  qed
qed

lemma mux_channels_done:
  "\<not> int i < ns \<Longrightarrow> mux_channels tbs f fs s sz T st ss ns i ring = Some (Inr ring)"
  by (subst mux_channels.simps) simp

lemma mux_channels_oob:
  "int i < ns \<Longrightarrow> \<not> i < length tbs \<Longrightarrow>
   mux_channels tbs f fs s sz T st ss ns i ring = Some (Inl IndexOutOfRange)"
  by (subst mux_channels.simps) (simp add: target_at_def)

lemma mux_channels_skip:
  "int i < ns \<Longrightarrow> i < length tbs \<Longrightarrow> tbs ! i = None \<Longrightarrow>
   mux_channels tbs f fs s sz T st ss ns i ring =
   mux_channels tbs f fs s sz T st ss ns (i + 1) ring"
  by (subst mux_channels.simps) (simp add: target_at_def)

lemma mux_channels_step:
  "int i < ns \<Longrightarrow> i < length tbs \<Longrightarrow> tbs ! i = Some t \<Longrightarrow>
   mux_channels tbs f fs s sz T st ss ns i ring =
   (case mux_loop (Some t) (s + ss * i) sz T st ss 0 (f + ss * i) fs ring of
      None \<Rightarrow> None
    | Some (Inl e) \<Rightarrow> Some (Inl e)
    | Some (Inr ring') \<Rightarrow> mux_channels tbs f fs s sz T st ss ns (i + 1) ring')"
  by (subst mux_channels.simps) (simp add: target_at_def)

lemma mux_channels_no_null:
  "mux_channels tbs f fs s sz T st ss ns i ring \<noteq> Some (Inl NullDereference)"
proof (induction "nat (ns - int i)" arbitrary: i ring rule: less_induct)
  case less
  show ?case
  proof (cases "int i < ns")
    case False
    then show ?thesis by (simp add: mux_channels_done)
  next
    case True
    then have m: "nat (ns - int (i + 1)) < nat (ns - int i)" by linarith
    show ?thesis
    proof (cases "i < length tbs")
      case False
      with True show ?thesis by (simp add: mux_channels_oob)
    next
      case il: True
      show ?thesis
      proof (cases "tbs ! i")
        case None
        with True il less.hyps[OF m] show ?thesis by (simp add: mux_channels_skip)
      next
        case (Some t)
        show ?thesis
        proof (cases "mux_loop (Some t) (s + ss * i) sz T st ss 0 (f + ss * i) fs ring")
          case None
          then show ?thesis by (simp add: mux_channels_step[OF True il Some])
        next
          case (Some r1)
          from mux_loop_nonnull[OF Some] obtain ring' where "r1 = Inr ring'" by blast
          with Some less.hyps[OF m, of ring'] show ?thesis
            by (simp add: mux_channels_step[OF True il \<open>tbs ! i = Some t\<close>])
        qed
      qed
    qed
  qed
qed

lemma mux_channels_total:
  assumes "0 < ss" "ns \<le> int (length tbs)"
  shows "\<exists>ring'. mux_channels tbs f fs s sz T st ss ns i ring = Some (Inr ring')"
proof (induction "nat (ns - int i)" arbitrary: i ring rule: less_induct)
  case less
  show ?case
  proof (cases "int i < ns")
    case False
    then show ?thesis by (simp add: mux_channels_done)
  next
    case True
    then have m: "nat (ns - int (i + 1)) < nat (ns - int i)" by linarith
    from True assms(2) have il: "i < length tbs" by linarith
    show ?thesis
    proof (cases "tbs ! i")
      case None
      with True il less.hyps[OF m] show ?thesis
        by (simp add: mux_channels_skip)
    next
      case (Some t)
      from mux_loop_total[OF assms(1)] obtain ring' where
        "mux_loop (Some t) (s + ss * i) sz T st ss 0 (f + ss * i) fs ring = Some (Inr ring')"
        by blast
      then show ?thesis
        using less.hyps[OF m, of ring']
        by (simp add: mux_channels_step[OF True il Some])
    qed
  qed
qed

lemma zero_targets_no_null: "zero_targets n nt i bufs \<noteq> Inl NullDereference"
proof (induction n nt i bufs rule: zero_targets.induct)
  case (1 n nt i bufs)
  show ?case
    using 1 
    by (subst zero_targets.simps) (auto simp: target_at_def memset_zero_def split: sum.splits option.splits)
qed

lemma zero_targets_spec:
  "zero_targets n nt i bufs = Inr bufs' \<Longrightarrow>
     length bufs' = length bufs \<and>
     (\<forall>k < length bufs. bufs' ! k =
        (if i \<le> k \<and> int k < nt then map_option (\<lambda>t x. if x < n then 0 else t x) (bufs ! k) else bufs ! k))"
proof (induction n nt i bufs arbitrary: bufs' rule: zero_targets.induct)
  case (1 n nt i bufs)
  show ?case
  proof (cases "int i < nt")
    case False
    with "1.prems" show ?thesis by (subst (asm) zero_targets.simps) auto
  next
    case True
    show ?thesis
    proof (cases "i < length bufs")
      case False
      with True "1.prems" show ?thesis by (subst (asm) zero_targets.simps) (simp add: target_at_def)
    next
      case il: True
      show ?thesis
      proof (cases "bufs ! i")
        case None
        with True il "1.prems" have r: "zero_targets n nt (i + 1) bufs = Inr bufs'"
          by (subst (asm) zero_targets.simps) (simp add: target_at_def)
        from "1.IH"(2)[OF True _ _ r] True il None
        have "length bufs' = length bufs \<and>
     (\<forall>k < length bufs. bufs' ! k =
        (if i + 1 \<le> k \<and> int k < nt then map_option (\<lambda>t x. if x < n then 0 else t x) (bufs ! k) else bufs ! k))"
          by (simp add: target_at_def)
        with None show ?thesis
          by (auto simp: Suc_le_eq le_less)
      next
        case (Some t)
        let ?t' = "Some (\<lambda>x. if x < n then 0 else t x)"
        from Some True il "1.prems" have r: "zero_targets n nt (i + 1) (bufs[i := ?t']) = Inr bufs'"
          by (subst (asm) zero_targets.simps) (simp add: target_at_def memset_zero_def)
        have "length bufs' = length (bufs[i := ?t']) \<and>
     (\<forall>k < length (bufs[i := ?t']). bufs' ! k =
        (if i + 1 \<le> k \<and> int k < nt then map_option (\<lambda>t x. if x < n then 0 else t x) ((bufs[i := ?t']) ! k) else (bufs[i := ?t']) ! k))"
          using "1.IH"(1)[OF True _ _ _ r] True il Some
          by (simp add: target_at_def memset_zero_def)
        with Some il True show ?thesis
          by (auto simp: Suc_le_eq le_less nth_list_update)
      qed
    qed
  qed
qed

lemma zero_targets_total:
  "nt \<le> int (length bufs) \<Longrightarrow> \<exists>bufs'. zero_targets n nt i bufs = Inr bufs'"
proof (induction n nt i bufs rule: zero_targets.induct)
  case (1 n nt i bufs)
  show ?case
  proof (cases "int i < nt")
    case False
    then show ?thesis by (subst zero_targets.simps) auto
  next
    case True
    with "1.prems" have il: "i < length bufs" by simp
    show ?thesis
    proof (cases "bufs ! i")
      case None
      with True il "1.IH"(2) "1.prems" show ?thesis
        by (subst zero_targets.simps) (simp add: target_at_def)
    next
      case (Some t)
      with True il "1.IH"(1)[of "bufs ! i" "Some (\<lambda>x. if x < n then 0 else t x)"] "1.prems" show ?thesis
        by (subst zero_targets.simps) (simp add: target_at_def memset_zero_def)
    qed
  qed
qed

subsection \<open>demux and mux as a whole\<close>

lemma demux_no_null:
  "demux ring f fs s sz tbs nt ns T ss \<noteq> Some (Inl NullDereference)"
proof -
  let ?st = "nat (int ss * ns)" and ?ns = "if nt < ns then nt else ns"
  show ?thesis
  proof (cases "demux_channels ring f fs s sz T ?st ss ?ns 0 tbs")
    case None
    then show ?thesis by (simp add: demux_def Let_def)
  next
    case (Some r)
    show ?thesis
    proof (cases r)
      case (Inl e)
      with Some demux_channels_no_null[of ring f fs s sz T ?st ss ?ns 0 tbs] show ?thesis
        by (simp add: demux_def Let_def)
    next
      case (Inr p)
      with Some zero_targets_no_null[of T nt "fst p" "snd p"] show ?thesis
        by (simp add: demux_def Let_def case_prod_beta)
    qed
  qed
qed

lemma demux_result:
  assumes "demux ring f fs s sz tbs nt ns T ss = Some (Inr res)"
  shows "length res = length tbs"
    and "k < length tbs \<Longrightarrow> (res ! k = None) = (tbs ! k = None)"
    and "k < length tbs \<Longrightarrow> nt \<le> int k \<Longrightarrow> res ! k = tbs ! k"
    and "k < length tbs \<Longrightarrow> ns \<le> int k \<Longrightarrow> int k < nt \<Longrightarrow>
           res ! k = map_option (\<lambda>t x. if x < T then 0 else t x) (tbs ! k)"
proof -
  let ?st = "nat (int ss * ns)" and ?ns = "if nt < ns then nt else ns"
  from assms obtain i tbs1 where
    ch: "demux_channels ring f fs s sz T ?st ss ?ns 0 tbs = Some (Inr (i, tbs1))"
    and z: "zero_targets T nt i tbs1 = Inr res"
    by (auto simp: demux_def Let_def split: option.splits sum.splits)
  from demux_channels_shape[OF ch] have
    l1: "length tbs1 = length tbs" and i: "i = nat ?ns"
    and n1: "\<And>k. (tbs1 ! k = None) = (tbs ! k = None)"
    and k1: "\<And>k. ?ns \<le> int k \<Longrightarrow> tbs1 ! k = tbs ! k"
    by simp_all
  from zero_targets_spec[OF z] l1 have
    l2: "length res = length tbs"
    and k2: "\<And>k. k < length tbs \<Longrightarrow> res ! k =
        (if i \<le> k \<and> int k < nt
         then map_option (\<lambda>t x. if x < T then 0 else t x) (tbs1 ! k) else tbs1 ! k)"
    by simp_all
  show "length res = length tbs" by (rule l2)
  show "(res ! k = None) = (tbs ! k = None)" if "k < length tbs"
    using k2[OF that] n1[of k] by (simp split: if_splits)
  show "res ! k = tbs ! k" if "k < length tbs" "nt \<le> int k"
    using k2[OF that(1)] k1[of k] that(2) by (simp split: if_splits)
  show "res ! k = map_option (\<lambda>t x. if x < T then 0 else t x) (tbs ! k)"
    if "k < length tbs" "ns \<le> int k" "int k < nt"
  proof -
    from that have "?ns \<le> int k" "i \<le> k" using i by (simp_all split: if_splits)
    with k2[OF that(1)] k1[of k] that(3) show ?thesis by simp
  qed
qed

lemma demux_total:
  assumes "0 < ss" "nt \<le> int (length tbs)"
  shows "\<exists>res. demux ring f fs s sz tbs nt ns T ss = Some (Inr res)"
proof -
  let ?st = "nat (int ss * ns)" and ?ns = "if nt < ns then nt else ns"
  have "?ns \<le> int (length tbs)" using assms(2) by simp
  from demux_channels_total[OF assms(1) this] obtain i tbs1 where
    ch: "demux_channels ring f fs s sz T ?st ss ?ns 0 tbs = Some (Inr (i, tbs1))"
    by blast
  from demux_channels_shape[OF ch] have "length tbs1 = length tbs" by simp
  with assms(2) zero_targets_total[of nt tbs1 T i] obtain res where
    "zero_targets T nt i tbs1 = Inr res" by auto
  with ch show ?thesis by (simp add: demux_def Let_def)
qed

lemma mux_no_null:
  "mux ring f fs s sz tbs nt ns T ss \<noteq> Some (Inl NullDereference)"
  by (simp add: mux_def Let_def mux_channels_no_null)

lemma mux_total:
  assumes "0 < ss" "nt \<le> int (length tbs)"
  shows "\<exists>ring'. mux ring f fs s sz tbs nt ns T ss = Some (Inr ring')"
proof -
  have "(if nt < ns then nt else ns) \<le> int (length tbs)" using assms(2) by simp
  from mux_channels_total[OF assms(1) this] show ?thesis
    by (simp add: mux_def Let_def)
qed

subsection \<open>The frames of a copy\<close>

lemma succ_mult_le: "k < N \<Longrightarrow> (k + 1) * st \<le> N * (st::nat)"
  by (metis Suc_eq_plus1 Suc_leI mult_le_mono1)

lemma cap_remaining:
  assumes "whole_frames_capacity fs sz st N" "k < N"
  shows "st \<le> remaining_at fs sz st k"
proof (cases "N * st \<le> fs")
  case True
  from assms(2) have "(k + 1) * st \<le> N * st" by (rule succ_mult_le)
  with True have "(k + 1) * st \<le> fs" by linarith
  then show ?thesis by (auto simp: remaining_at_def)
next
  case False
  with assms(1) obtain m where m: "fs = st * m" and c: "N * st \<le> fs + sz"
    by (auto simp: whole_frames_capacity_def dvd_def)
  from assms(2) have k1: "(k + 1) * st \<le> N * st" by (rule succ_mult_le)
  show ?thesis
  proof (cases "k * st < fs")
    case True
    with m have "k * st < m * st" by (simp add: mult.commute)
    then have "k < m" by simp
    then have "(k + 1) * st \<le> m * st" by (rule succ_mult_le)
    with m have "(k + 1) * st \<le> fs" by (simp add: mult.commute)
    with True show ?thesis by (simp add: remaining_at_def)
  next
    case False
    with k1 c show ?thesis by (simp add: remaining_at_def)
  qed
qed

lemma cap_next:
  assumes "whole_frames_capacity fs sz st N" "k + 1 < N" "0 < st"
  shows "(if remaining_at fs sz st k - st = 0 then (s + ss * i, sz)
          else (sample_address f fs s st ss i k + st, remaining_at fs sz st k - st)) =
         (sample_address f fs s st ss i (k + 1), remaining_at fs sz st (k + 1))"
proof -
  from assms have r: "st \<le> remaining_at fs sz st k" by (simp add: cap_remaining)
  from assms have r1: "st \<le> remaining_at fs sz st (k + 1)" by (simp add: cap_remaining)
  show ?thesis
  proof (cases "k * st < fs")
    case True
    with r have le: "(k + 1) * st \<le> fs" by (simp add: remaining_at_def)
    show ?thesis
    proof (cases "(k + 1) * st < fs")
      case True
      with \<open>k * st < fs\<close> show ?thesis
        by (simp add: remaining_at_def sample_address_def algebra_simps)
    next
      case False
      with le have "(k + 1) * st = fs" by simp
      with \<open>k * st < fs\<close> show ?thesis
        by (simp add: remaining_at_def sample_address_def)
    qed
  next
    case False
    then have f1: "\<not> (k + 1) * st < fs" by simp
    from r1 f1 have g: "fs + sz - (k + 1) * st \<ge> st" by (simp add: remaining_at_def)
    have e0: "(k + 1) * st = k * st + st" by simp
    from g assms(3) have nz: "fs + sz - k * st - st \<noteq> 0" unfolding e0 by linarith
    from False have e1: "(k + 1) * st - fs = k * st - fs + st" unfolding e0 by linarith
    have e2: "fs + sz - (k + 1) * st = fs + sz - k * st - st" unfolding e0 by linarith
    have ra: "remaining_at fs sz st k = fs + sz - k * st"
      using False by (simp add: remaining_at_def)
    have rb: "remaining_at fs sz st (k + 1) = fs + sz - (k + 1) * st"
      using f1 by (simp only: remaining_at_def if_False)
    have sa: "sample_address f fs s st ss i k = s + (k * st - fs) + ss * i"
      using False by (simp add: sample_address_def)
    have sb: "sample_address f fs s st ss i (k + 1) = s + ((k + 1) * st - fs) + ss * i"
      using f1 by (simp only: sample_address_def if_False)
    show ?thesis
      unfolding ra rb sa sb e1 e2 if_not_P[OF nz] by simp
  qed
qed


lemma quot_rem_unique:
  fixes a b :: nat
  assumes "a * m + r = b * m + r'" "r < m" "r' < m"
  shows "a = b \<and> r = r'"
proof -
  have "a = b"
  proof (rule ccontr)
    assume "a \<noteq> b"
    then consider "a < b" | "b < a" by linarith
    then show False
    proof cases
      case 1
      then have "(a + 1) * m \<le> b * m" by (rule succ_mult_le)
      with assms show False by (simp add: algebra_simps)
    next
      case 2
      then have "(b + 1) * m \<le> a * m" by (rule succ_mult_le)
      with assms show False by (simp add: algebra_simps)
    qed
  qed
  with assms show ?thesis by simp
qed

lemma cap_first:
  assumes "whole_frames_capacity fs sz st N" "k < N" "k * st < fs"
  shows "(k + 1) * st \<le> fs"
  using cap_remaining[OF assms(1,2)] assms(3) by (simp add: remaining_at_def)

lemma cap_second:
  assumes "whole_frames_capacity fs sz st N" "k < N" "\<not> k * st < fs"
  shows "k * st - fs + st \<le> sz"
proof -
  from cap_remaining[OF assms(1,2)] assms(3) have r: "st \<le> fs + sz - k * st"
    by (simp add: remaining_at_def)
  show ?thesis
  proof (cases "st = 0")
    case True
    then show ?thesis by simp
  next
    case False
    with r assms(3) show ?thesis by linarith
  qed
qed

lemma sample_address_inj:
  assumes cap: "whole_frames_capacity fs sz st N"
    and seg: "f + fs \<le> s \<or> s + sz \<le> f"
    and st: "ss * n \<le> st"
    and i: "i < n" "i' < n" and k: "k < N" "k' < N" and d: "d < ss" "d' < ss"
    and eq: "sample_address f fs s st ss i k + d = sample_address f fs s st ss i' k' + d'"
  shows "i = i' \<and> k = k' \<and> d = d'"
proof -
  have off: "ss * j + e < st" if "j < n" "e < ss" for j e
  proof -
    from that(1) have "(j + 1) * ss \<le> n * ss" by (rule succ_mult_le)
    with st that(2) show ?thesis by (simp add: algebra_simps)
  qed
  note o1 = off[OF i(1) d(1)] and o2 = off[OF i(2) d(2)]
  have fin: "i = i' \<and> k = k' \<and> d = d'" if "k * st + (ss * i + d) = k' * st + (ss * i' + d')"
  proof -
    from quot_rem_unique[OF that o1 o2] have kk: "k = k'" and e: "ss * i + d = ss * i' + d'"
      by simp_all
    from e have "i * ss + d = i' * ss + d'" by (simp add: mult.commute)
    from quot_rem_unique[OF this d] kk show ?thesis by simp
  qed
  show ?thesis
  proof (cases "k * st < fs")
    case k1: True
    show ?thesis
    proof (cases "k' * st < fs")
      case True
      with k1 eq have "k * st + (ss * i + d) = k' * st + (ss * i' + d')"
        by (simp add: sample_address_def)
      then show ?thesis by (rule fin)
    next
      case False
      from cap_first[OF cap k(1) k1] o1 have a: "k * st + (ss * i + d) < fs" by simp
      from cap_second[OF cap k(2) False] o2 have b: "k' * st - fs + (ss * i' + d') < sz" by simp
      from eq k1 False have "f + (k * st + (ss * i + d)) = s + (k' * st - fs + (ss * i' + d'))"
        by (simp add: sample_address_def)
      with a b seg show ?thesis by linarith
    qed
  next
    case k1: False
    show ?thesis
    proof (cases "k' * st < fs")
      case True
      from cap_first[OF cap k(2) True] o2 have a: "k' * st + (ss * i' + d') < fs" by simp
      from cap_second[OF cap k(1) k1] o1 have b: "k * st - fs + (ss * i + d) < sz" by simp
      from eq k1 True have "s + (k * st - fs + (ss * i + d)) = f + (k' * st + (ss * i' + d'))"
        by (simp add: sample_address_def)
      with a b seg show ?thesis by linarith
    next
      case False
      with k1 eq have "k * st - fs + (ss * i + d) = k' * st - fs + (ss * i' + d')"
        by (simp add: sample_address_def)
      with k1 False have "k * st + (ss * i + d) = k' * st + (ss * i' + d')" by linarith
      then show ?thesis by (rule fin)
    qed
  qed
qed

lemma if_pair: "(if c then F a b else F a' b') = (case (if c then (a, b) else (a', b')) of (x, y) \<Rightarrow> F x y)"
  by simp

lemma frame_index:
  fixes ss :: nat
  assumes "0 < ss" "k * ss \<le> y" "y < k * ss + ss"
  shows "y div ss = k \<and> y mod ss = y - k * ss"
proof -
  have "y = (y - k * ss) + k * ss" using assms(2) by simp
  moreover have "y - k * ss < ss" using assms by linarith
  ultimately have "y div ss = k" using assms(1)
    by (metis div_mult_self2 div_less add.commute add_0 less_numeral_extra(3) mult.commute)
  moreover have "y mod ss = y - k * ss"
    by (metis \<open>y - k * ss < ss\<close> \<open>y = (y - k * ss) + k * ss\<close> mod_less mod_mult_self1 mult.commute)
  ultimately show ?thesis by simp
qed

lemma demux_loop_exit:
  "\<not> j < T \<Longrightarrow> demux_loop ring s2 sz T st ss j buf rem u = Some (Inr u)"
  by (subst demux_loop.simps) simp

lemma demux_loop_unfold:
  "j < T \<Longrightarrow> st \<le> rem \<Longrightarrow>
   demux_loop ring s2 sz T st ss j buf rem (Some u) =
     (case (if rem - st = 0 then (s2, sz) else (buf + st, rem - st)) of
        (buf', rem') \<Rightarrow>
          demux_loop ring s2 sz T st ss (j + ss) buf' rem'
            (Some (\<lambda>x. if j \<le> x \<and> x < j + ss then ring (buf + (x - j)) else u x)))"
  by (subst demux_loop.simps) (simp add: memcpy_to_target_Some)

lemma demux_loop_frames:
  assumes cap: "whole_frames_capacity fs sz st N" and ss: "0 < ss" and st: "0 < st"
    and frames: "\<And>k. (k * ss < T) = (k < N)"
  shows "k \<le> N \<Longrightarrow>
     (k < N \<Longrightarrow> buf = sample_address f fs s st ss i k \<and> rem = remaining_at fs sz st k) \<Longrightarrow>
     demux_loop ring (s + ss * i) sz T st ss (k * ss) buf rem (Some u) =
       Some (Inr (Some (\<lambda>y. if k * ss \<le> y \<and> y < N * ss
                              then ring (sample_address f fs s st ss i (y div ss) + y mod ss)
                              else u y)))"
proof (induction "N - k" arbitrary: k buf rem u rule: less_induct)
  case less
  show ?case
  proof (cases "k < N")
    case False
    with less.prems(1) have kN: "k = N" by simp
    then have "\<not> k * ss < T" using frames[of k] by simp
    then have "demux_loop ring (s + ss * i) sz T st ss (k * ss) buf rem (Some u) = Some (Inr (Some u))"
      by (rule demux_loop_exit)
    moreover have "(\<lambda>y. if k * ss \<le> y \<and> y < N * ss
                              then ring (sample_address f fs s st ss i (y div ss) + y mod ss)
                              else u y) = u"
    proof
      fix y
      have "\<not> (k * ss \<le> y \<and> y < N * ss)" using kN by simp
      then show "(if k * ss \<le> y \<and> y < N * ss
                              then ring (sample_address f fs s st ss i (y div ss) + y mod ss)
                              else u y) = u y"
        by (rule if_not_P)
    qed
    ultimately show ?thesis by simp
  next
    case True
    from less.prems(2)[OF True] have buf: "buf = sample_address f fs s st ss i k"
      and rem: "rem = remaining_at fs sz st k" by simp_all
    from True frames[of k] have jT: "k * ss < T" by simp
    from cap_remaining[OF cap True] rem have sr: "st \<le> rem" by simp
    let ?u1 = "\<lambda>x. if k * ss \<le> x \<and> x < k * ss + ss then ring (buf + (x - k * ss)) else u x"
    let ?p = "if rem - st = 0 then (s + ss * i, sz) else (buf + st, rem - st)"
    have u: "demux_loop ring (s + ss * i) sz T st ss (k * ss) buf rem (Some u) =
       demux_loop ring (s + ss * i) sz T st ss ((k + 1) * ss) (fst ?p) (snd ?p) (Some ?u1)"
      unfolding demux_loop_unfold[OF jT sr] by (simp add: case_prod_beta algebra_simps)
    have m: "N - (k + 1) < N - k" using True by simp
    have kle: "k + 1 \<le> N" using True by simp
    have st2: "fst ?p = sample_address f fs s st ss i (k + 1) \<and>
                 snd ?p = remaining_at fs sz st (k + 1)" if "k + 1 < N"
    proof -
      have "?p = (sample_address f fs s st ss i (k + 1), remaining_at fs sz st (k + 1))"
        unfolding buf rem by (rule cap_next[OF cap that st])
      then show ?thesis by (simp only: fst_conv snd_conv)
    qed
    have "demux_loop ring (s + ss * i) sz T st ss ((k + 1) * ss) (fst ?p) (snd ?p) (Some ?u1) =
       Some (Inr (Some (\<lambda>y. if (k + 1) * ss \<le> y \<and> y < N * ss
                              then ring (sample_address f fs s st ss i (y div ss) + y mod ss)
                              else ?u1 y)))"
      by (rule less.hyps[OF m kle st2])
    moreover have "(\<lambda>y. if (k + 1) * ss \<le> y \<and> y < N * ss
                              then ring (sample_address f fs s st ss i (y div ss) + y mod ss)
                              else ?u1 y) =
          (\<lambda>y. if k * ss \<le> y \<and> y < N * ss
                              then ring (sample_address f fs s st ss i (y div ss) + y mod ss)
                              else u y)"
    proof
      fix y
      have le: "(k + 1) * ss \<le> N * ss" using True by (rule succ_mult_le)
      show "(if (k + 1) * ss \<le> y \<and> y < N * ss
                              then ring (sample_address f fs s st ss i (y div ss) + y mod ss)
                              else ?u1 y) =
          (if k * ss \<le> y \<and> y < N * ss
                              then ring (sample_address f fs s st ss i (y div ss) + y mod ss)
                              else u y)"
      proof (cases "k * ss \<le> y \<and> y < k * ss + ss")
        case True
        from frame_index[OF ss] True have "y div ss = k" "y mod ss = y - k * ss" by simp_all
        with True le buf show ?thesis by simp
      next
        case False
        then show ?thesis by auto
      qed
    qed
    ultimately show ?thesis using u by simp
  qed
qed


lemma mux_loop_exit:
  "\<not> j < T \<Longrightarrow> mux_loop t s2 sz T st ss j buf rem ring = Some (Inr ring)"
  by (subst mux_loop.simps) simp

lemma mux_loop_unfold:
  "j < T \<Longrightarrow> st \<le> rem \<Longrightarrow>
   mux_loop (Some t) s2 sz T st ss j buf rem ring =
     (case (if rem - st = 0 then (s2, sz) else (buf + st, rem - st)) of
        (buf', rem') \<Rightarrow>
          mux_loop (Some t) s2 sz T st ss (j + ss) buf' rem'
            (\<lambda>x. if buf \<le> x \<and> x < buf + ss then t (j + (x - buf)) else ring x))"
  by (subst mux_loop.simps) (simp add: memcpy_from_target_Some)

lemma mux_loop_frames:
  assumes cap: "whole_frames_capacity fs sz st N" and ss: "0 < ss" and st: "0 < st"
    and frames: "\<And>k. (k * ss < T) = (k < N)"
    and seg: "f + fs \<le> s \<or> s + sz \<le> f"
    and stn: "ss * n \<le> st" and i: "i < n"
  shows "k \<le> N \<Longrightarrow>
     (k < N \<Longrightarrow> buf = sample_address f fs s st ss i k \<and> rem = remaining_at fs sz st k) \<Longrightarrow>
     \<exists>ring'. mux_loop (Some t) (s + ss * i) sz T st ss (k * ss) buf rem ring = Some (Inr ring') \<and>
        (\<forall>x. (\<forall>k' d. k \<le> k' \<and> k' < N \<and> d < ss \<longrightarrow> x \<noteq> sample_address f fs s st ss i k' + d)
              \<longrightarrow> ring' x = ring x) \<and>
        (\<forall>k' d. k \<le> k' \<and> k' < N \<and> d < ss \<longrightarrow>
              ring' (sample_address f fs s st ss i k' + d) = t (k' * ss + d))"
proof (induction "N - k" arbitrary: k buf rem ring rule: less_induct)
  case less
  show ?case
  proof (cases "k < N")
    case False
    with less.prems(1) have kN: "k = N" by simp
    then have "\<not> k * ss < T" using frames[of k] by simp
    then have "mux_loop (Some t) (s + ss * i) sz T st ss (k * ss) buf rem ring = Some (Inr ring)"
      by (rule mux_loop_exit)
    moreover have "\<not> (k \<le> k' \<and> k' < N \<and> d < ss)" for k' d :: nat using kN by linarith
    ultimately show ?thesis by blast
  next
    case True
    from less.prems(2)[OF True] have buf: "buf = sample_address f fs s st ss i k"
      and rem: "rem = remaining_at fs sz st k" by simp_all
    from True frames[of k] have jT: "k * ss < T" by simp
    from cap_remaining[OF cap True] rem have sr: "st \<le> rem" by simp
    let ?r1 = "\<lambda>x. if buf \<le> x \<and> x < buf + ss then t (k * ss + (x - buf)) else ring x"
    let ?p = "if rem - st = 0 then (s + ss * i, sz) else (buf + st, rem - st)"
    have u: "mux_loop (Some t) (s + ss * i) sz T st ss (k * ss) buf rem ring =
       mux_loop (Some t) (s + ss * i) sz T st ss ((k + 1) * ss) (fst ?p) (snd ?p) ?r1"
      unfolding mux_loop_unfold[OF jT sr] by (simp add: case_prod_beta algebra_simps)
    have m: "N - (k + 1) < N - k" using True by simp
    have kle: "k + 1 \<le> N" using True by simp
    have st2: "fst ?p = sample_address f fs s st ss i (k + 1) \<and>
                 snd ?p = remaining_at fs sz st (k + 1)" if "k + 1 < N"
    proof -
      have "?p = (sample_address f fs s st ss i (k + 1), remaining_at fs sz st (k + 1))"
        unfolding buf rem by (rule cap_next[OF cap that st])
      then show ?thesis by (simp only: fst_conv snd_conv)
    qed
    from less.hyps[OF m kle st2, of ?r1] obtain ring' where
      run: "mux_loop (Some t) (s + ss * i) sz T st ss ((k + 1) * ss) (fst ?p) (snd ?p) ?r1 =
              Some (Inr ring')"
      and fr: "\<And>x. (\<And>k' d. k + 1 \<le> k' \<Longrightarrow> k' < N \<Longrightarrow> d < ss \<Longrightarrow>
                       x \<noteq> sample_address f fs s st ss i k' + d) \<Longrightarrow> ring' x = ?r1 x"
      and co: "\<And>k' d. k + 1 \<le> k' \<Longrightarrow> k' < N \<Longrightarrow> d < ss \<Longrightarrow>
                 ring' (sample_address f fs s st ss i k' + d) = t (k' * ss + d)"
      by blast
    have frame: "ring' x = ring x"
      if h: "\<And>k' d. k \<le> k' \<Longrightarrow> k' < N \<Longrightarrow> d < ss \<Longrightarrow> x \<noteq> sample_address f fs s st ss i k' + d"
      for x
    proof -
      have "ring' x = ?r1 x" by (rule fr) (use h in auto)
      moreover have "\<not> (buf \<le> x \<and> x < buf + ss)"
      proof
        assume a: "buf \<le> x \<and> x < buf + ss"
        then have "x = sample_address f fs s st ss i k + (x - buf)" "x - buf < ss"
          using buf by auto
        with h[of k "x - buf"] True show False by simp
      qed
      ultimately show ?thesis by simp
    qed
    have content: "ring' (sample_address f fs s st ss i k' + d) = t (k' * ss + d)"
      if h: "k \<le> k'" "k' < N" "d < ss" for k' d
    proof (cases "k' = k")
      case False
      with h show ?thesis by (intro co) simp_all
    next
      case kk: True
      have "ring' (sample_address f fs s st ss i k + d) = ?r1 (sample_address f fs s st ss i k + d)"
      proof (rule fr)
        fix k'' d'
        assume b: "k + 1 \<le> k''" "k'' < N" "d' < ss"
        show "sample_address f fs s st ss i k + d \<noteq> sample_address f fs s st ss i k'' + d'"
        proof
          assume "sample_address f fs s st ss i k + d = sample_address f fs s st ss i k'' + d'"
          from sample_address_inj[OF cap seg stn i i True b(2) h(3) b(3) this] b(1)
          show False by simp
        qed
      qed
      also have "\<dots> = t (k * ss + d)" using buf h(3) by simp
      finally show ?thesis using kk by simp
    qed
    have a: "mux_loop (Some t) (s + ss * i) sz T st ss (k * ss) buf rem ring = Some (Inr ring')"
      using u run by simp
    have b: "\<forall>x. (\<forall>k' d. k \<le> k' \<and> k' < N \<and> d < ss \<longrightarrow>
                  x \<noteq> sample_address f fs s st ss i k' + d) \<longrightarrow> ring' x = ring x"
    proof (intro allI impI)
      fix x
      assume "\<forall>k' d. k \<le> k' \<and> k' < N \<and> d < ss \<longrightarrow> x \<noteq> sample_address f fs s st ss i k' + d"
      then show "ring' x = ring x" by (intro frame) blast
    qed
    have c: "\<forall>k' d. k \<le> k' \<and> k' < N \<and> d < ss \<longrightarrow>
              ring' (sample_address f fs s st ss i k' + d) = t (k' * ss + d)"
      using content by blast
    from a b c show ?thesis by (intro exI[of _ ring'] conjI)
  qed
qed

lemma cap_start:
  assumes "whole_frames_capacity fs sz st N" "0 < N" "0 < st"
  shows "sample_address f fs s st ss i 0 = f + ss * i \<and> remaining_at fs sz st 0 = fs"
proof -
  from cap_remaining[OF assms(1,2)] have "st \<le> remaining_at fs sz st 0" .
  moreover have "0 < fs"
  proof (cases "N * st \<le> fs")
    case True
    from assms(2) have "st \<le> N * st" by (cases N) simp_all
    with True assms(3) show ?thesis by linarith
  next
    case False
    with assms(1) show ?thesis by (simp add: whole_frames_capacity_def)
  qed
  ultimately show ?thesis by (simp add: sample_address_def remaining_at_def)
qed

lemma mux_channels_frames:
  assumes cap: "whole_frames_capacity fs sz st N" and ss: "0 < ss" and st: "0 < st"
    and frames: "\<And>k. (k * ss < T) = (k < N)"
    and seg: "f + fs \<le> s \<or> s + sz \<le> f"
    and stn: "ss * n \<le> st" and len: "n \<le> length tbs"
    and tb: "\<And>i. i < n \<Longrightarrow> tbs ! i = Some (ts i)"
  shows "i \<le> n \<Longrightarrow>
     \<exists>ring'. mux_channels tbs f fs s sz T st ss (int n) i ring = Some (Inr ring') \<and>
        (\<forall>x. (\<forall>i' k d. i \<le> i' \<and> i' < n \<and> k < N \<and> d < ss \<longrightarrow>
                 x \<noteq> sample_address f fs s st ss i' k + d) \<longrightarrow> ring' x = ring x) \<and>
        (\<forall>i' k d. i \<le> i' \<and> i' < n \<and> k < N \<and> d < ss \<longrightarrow>
             ring' (sample_address f fs s st ss i' k + d) = ts i' (k * ss + d))"
proof (induction "n - i" arbitrary: i ring rule: less_induct)
  case less
  show ?case
  proof (cases "i < n")
    case False
    with less.prems have "i = n" by simp
    then have "mux_channels tbs f fs s sz T st ss (int n) i ring = Some (Inr ring)"
      by (simp add: mux_channels_done)
    moreover have "\<not> (i \<le> i' \<and> i' < n \<and> k < N \<and> d < ss)" for i' k d :: nat
      using \<open>i = n\<close> by linarith
    ultimately show ?thesis by blast
  next
    case True
    then have ii: "int i < int n" and il: "i < length tbs" using len by simp_all
    have start: "0 < N \<Longrightarrow> f + ss * i = sample_address f fs s st ss i 0 \<and>
                  fs = remaining_at fs sz st 0"
      using cap_start[OF cap _ st] by simp
    from mux_loop_frames[OF cap ss st frames seg stn True, where k = 0 and buf = "f + ss * i"
        and rem = fs and t = "ts i" and ring = ring] start
    obtain ring1 where
      run1: "mux_loop (Some (ts i)) (s + ss * i) sz T st ss 0 (f + ss * i) fs ring = Some (Inr ring1)"
      and fr1: "\<And>x. (\<And>k d. k < N \<Longrightarrow> d < ss \<Longrightarrow> x \<noteq> sample_address f fs s st ss i k + d)
                  \<Longrightarrow> ring1 x = ring x"
      and co1: "\<And>k d. k < N \<Longrightarrow> d < ss \<Longrightarrow>
                  ring1 (sample_address f fs s st ss i k + d) = ts i (k * ss + d)"
      by auto
    have m: "n - (i + 1) < n - i" using True by simp
    have le: "i + 1 \<le> n" using True by simp
    from less.hyps[OF m le, of ring1] obtain ring' where
      run2: "mux_channels tbs f fs s sz T st ss (int n) (i + 1) ring1 = Some (Inr ring')"
      and fr2: "\<And>x. (\<And>i' k d. i + 1 \<le> i' \<Longrightarrow> i' < n \<Longrightarrow> k < N \<Longrightarrow> d < ss \<Longrightarrow>
                   x \<noteq> sample_address f fs s st ss i' k + d) \<Longrightarrow> ring' x = ring1 x"
      and co2: "\<And>i' k d. i + 1 \<le> i' \<Longrightarrow> i' < n \<Longrightarrow> k < N \<Longrightarrow> d < ss \<Longrightarrow>
                   ring' (sample_address f fs s st ss i' k + d) = ts i' (k * ss + d)"
      by blast
    have a: "mux_channels tbs f fs s sz T st ss (int n) i ring = Some (Inr ring')"
      unfolding mux_channels_step[OF ii il tb[OF True]] using run1 run2 by simp
    have frame: "ring' x = ring x"
      if h: "\<And>i' k d. i \<le> i' \<Longrightarrow> i' < n \<Longrightarrow> k < N \<Longrightarrow> d < ss \<Longrightarrow>
                x \<noteq> sample_address f fs s st ss i' k + d" for x
    proof -
      have "ring' x = ring1 x" by (rule fr2) (use h in auto)
      also have "\<dots> = ring x" by (rule fr1) (use h True in auto)
      finally show ?thesis .
    qed
    have content: "ring' (sample_address f fs s st ss i' k + d) = ts i' (k * ss + d)"
      if h: "i \<le> i'" "i' < n" "k < N" "d < ss" for i' k d
    proof (cases "i' = i")
      case False
      with h show ?thesis by (intro co2) simp_all
    next
      case same: True
      have "ring' (sample_address f fs s st ss i k + d) = ring1 (sample_address f fs s st ss i k + d)"
      proof (rule fr2)
        fix i'' k' d'
        assume b: "i + 1 \<le> i''" "i'' < n" "k' < N" "d' < ss"
        show "sample_address f fs s st ss i k + d \<noteq> sample_address f fs s st ss i'' k' + d'"
        proof
          assume "sample_address f fs s st ss i k + d = sample_address f fs s st ss i'' k' + d'"
          from sample_address_inj[OF cap seg stn True b(2) h(3) b(3) h(4) b(4) this] b(1)
          show False by simp
        qed
      qed
      also have "\<dots> = ts i (k * ss + d)" by (rule co1[OF h(3,4)])
      finally show ?thesis using same by simp
    qed
    have b: "\<forall>x. (\<forall>i' k d. i \<le> i' \<and> i' < n \<and> k < N \<and> d < ss \<longrightarrow>
                 x \<noteq> sample_address f fs s st ss i' k + d) \<longrightarrow> ring' x = ring x"
    proof (intro allI impI)
      fix x
      assume "\<forall>i' k d. i \<le> i' \<and> i' < n \<and> k < N \<and> d < ss \<longrightarrow>
                 x \<noteq> sample_address f fs s st ss i' k + d"
      then show "ring' x = ring x" by (intro frame) blast
    qed
    have c: "\<forall>i' k d. i \<le> i' \<and> i' < n \<and> k < N \<and> d < ss \<longrightarrow>
             ring' (sample_address f fs s st ss i' k + d) = ts i' (k * ss + d)"
      using content by blast
    from a b c show ?thesis by (intro exI[of _ ring'] conjI)
  qed
qed

lemma demux_channels_frames:
  assumes cap: "whole_frames_capacity fs sz st N" and ss: "0 < ss" and st: "0 < st"
    and frames: "\<And>k. (k * ss < T) = (k < N)"
  shows "i \<le> n \<Longrightarrow> n \<le> length tbs \<Longrightarrow> (\<And>i'. i \<le> i' \<Longrightarrow> i' < n \<Longrightarrow> tbs ! i' = Some (us i')) \<Longrightarrow>
     \<exists>tbs'. demux_channels ring f fs s sz T st ss (int n) i tbs = Some (Inr (n, tbs')) \<and>
        length tbs' = length tbs \<and>
        (\<forall>i'. i \<le> i' \<and> i' < n \<longrightarrow>
           tbs' ! i' = Some (\<lambda>y. if y < N * ss
                                   then ring (sample_address f fs s st ss i' (y div ss) + y mod ss)
                                   else us i' y))"
proof (induction "n - i" arbitrary: i tbs rule: less_induct)
  case less
  show ?case
  proof (cases "i < n")
    case False
    with less.prems(1) have "i = n" by simp
    then have "demux_channels ring f fs s sz T st ss (int n) i tbs = Some (Inr (n, tbs))"
      by (simp add: demux_channels_done)
    moreover have "\<not> (i \<le> i' \<and> i' < n)" for i' using \<open>i = n\<close> by linarith
    ultimately show ?thesis by blast
  next
    case True
    then have ii: "int i < int n" and il: "i < length tbs" using less.prems(2) by simp_all
    have ti: "tbs ! i = Some (us i)" using less.prems(3)[of i] True by simp
    have start: "0 < N \<Longrightarrow> f + ss * i = sample_address f fs s st ss i 0 \<and>
                  fs = remaining_at fs sz st 0"
      using cap_start[OF cap _ st] by simp
    let ?u = "\<lambda>y. if y < N * ss then ring (sample_address f fs s st ss i (y div ss) + y mod ss)
                   else us i y"
    have run1: "demux_loop ring (s + ss * i) sz T st ss 0 (f + ss * i) fs (Some (us i)) =
                  Some (Inr (Some ?u))"
      using demux_loop_frames[OF cap ss st frames, where k = 0 and buf = "f + ss * i"
          and rem = fs and f = f and s = s and i = i and ring = ring and u = "us i"] start
      by simp
    have m: "n - (i + 1) < n - i" using True by simp
    have le: "i + 1 \<le> n" using True by simp
    have l2: "n \<le> length (tbs[i := Some ?u])" using less.prems(2) by simp
    have t2: "(tbs[i := Some ?u]) ! i' = Some (us i')" if "i + 1 \<le> i'" "i' < n" for i'
      using that less.prems(3)[of i'] by simp
    from less.hyps[OF m le l2 t2] obtain tbs' where
      run2: "demux_channels ring f fs s sz T st ss (int n) (i + 1) (tbs[i := Some ?u]) =
               Some (Inr (n, tbs'))"
      and l': "length tbs' = length tbs"
      and c2: "\<And>i'. i + 1 \<le> i' \<Longrightarrow> i' < n \<Longrightarrow>
           tbs' ! i' = Some (\<lambda>y. if y < N * ss
                                   then ring (sample_address f fs s st ss i' (y div ss) + y mod ss)
                                   else us i' y)"
      by auto
    have a: "demux_channels ring f fs s sz T st ss (int n) i tbs = Some (Inr (n, tbs'))"
      unfolding demux_channels_step[OF ii il ti] using run1 run2 by simp
    from demux_channels_shape[OF run2] have keep: "tbs' ! i = (tbs[i := Some ?u]) ! i"
      by simp
    with il have ci: "tbs' ! i = Some ?u" by simp
    have c: "\<forall>i'. i \<le> i' \<and> i' < n \<longrightarrow>
           tbs' ! i' = Some (\<lambda>y. if y < N * ss
                                   then ring (sample_address f fs s st ss i' (y div ss) + y mod ss)
                                   else us i' y)"
    proof (intro allI impI)
      fix i'
      assume h: "i \<le> i' \<and> i' < n"
      show "tbs' ! i' = Some (\<lambda>y. if y < N * ss
                                   then ring (sample_address f fs s st ss i' (y div ss) + y mod ss)
                                   else us i' y)"
      proof (cases "i' = i")
        case True
        show ?thesis unfolding True by (rule ci)
      next
        case False
        with h show ?thesis by (intro c2) simp_all
      qed
    qed
    from a l' c show ?thesis by (intro exI[of _ tbs'] conjI)
  qed
qed

lemma frames_count:
  fixes ss :: nat
  assumes "0 < ss"
  shows "(k * ss < T) = (k < (T + ss - 1) div ss)"
proof -
  have "(k < (T + ss - 1) div ss) = (k + 1 \<le> (T + ss - 1) div ss)" by linarith
  also have "\<dots> = ((k + 1) * ss \<le> T + ss - 1)"
    using assms by (simp add: less_eq_div_iff_mult_less_eq)
  also have "\<dots> = (k * ss < T)" using assms by (simp add: algebra_simps) linarith
  finally show ?thesis by simp
qed

lemma round_trip_aux:
  assumes ss: "0 < ss"
    and ls: "length sources = n" and lt: "length targets = n"
    and cap: "whole_frames_capacity fs sz (ss * n) ((T + ss - 1) div ss)"
    and seg: "f + fs \<le> s \<or> s + sz \<le> f"
  shows "\<exists>ring' res.
      mux ring f fs s sz (map Some sources) (int n) (int n) T ss = Some (Inr ring') \<and>
      demux ring' f fs s sz (map Some targets) (int n) (int n) T ss = Some (Inr res) \<and>
      length res = n \<and>
      (\<forall>i<n. \<exists>u. res ! i = Some u \<and> (\<forall>y<T. u y = (sources ! i) y))"
proof (cases "n = 0")
  case True
  with ls lt show ?thesis
    by (simp add: mux_def demux_def Let_def mux_channels_done demux_channels_done
        zero_targets.simps)
next
  case False
  let ?N = "(T + ss - 1) div ss" and ?st = "ss * n"
  from False ss have st: "0 < ?st" by simp
  note frames = frames_count[OF ss, of _ T]
  have stn: "ss * n \<le> ?st" by simp
  have TN: "T \<le> ?N * ss" using frames[of ?N] by simp
  have len_s: "n \<le> length (map Some sources)" using ls by simp
  have tb_s: "map Some sources ! i = Some (sources ! i)" if "i < n" for i using that ls by simp
  from mux_channels_frames[OF cap ss st frames seg stn len_s tb_s, of 0 ring]
  obtain ring' where
    m: "mux_channels (map Some sources) f fs s sz T ?st ss (int n) 0 ring = Some (Inr ring')"
    and co: "\<And>i k d. i < n \<Longrightarrow> k < ?N \<Longrightarrow> d < ss \<Longrightarrow>
               ring' (sample_address f fs s ?st ss i k + d) = (sources ! i) (k * ss + d)"
    by auto
  have len_t: "n \<le> length (map Some targets)" using lt by simp
  have tb_t: "map Some targets ! i = Some (targets ! i)" if "0 \<le> i" "i < n" for i
    using that lt by simp
  from demux_channels_frames[OF cap ss st frames _ len_t tb_t, of 0 ring' f s]
  obtain res where
    d: "demux_channels ring' f fs s sz T ?st ss (int n) 0 (map Some targets) = Some (Inr (n, res))"
    and lr: "length res = n"
    and cr: "\<And>i. i < n \<Longrightarrow> res ! i =
               Some (\<lambda>y. if y < ?N * ss
                         then ring' (sample_address f fs s ?st ss i (y div ss) + y mod ss)
                         else (targets ! i) y)"
    using lt by auto
  have z: "zero_targets T (int n) n res = Inr res"
    by (subst zero_targets.simps) simp
  have stride: "nat (int ss * int n) = ?st" by (simp add: nat_mult_distrib)
  have M: "mux ring f fs s sz (map Some sources) (int n) (int n) T ss = Some (Inr ring')"
    using m by (simp add: mux_def Let_def stride)
  have D: "demux ring' f fs s sz (map Some targets) (int n) (int n) T ss = Some (Inr res)"
    using d z by (simp add: demux_def Let_def stride)
  have R: "\<forall>i<n. \<exists>u. res ! i = Some u \<and> (\<forall>y<T. u y = (sources ! i) y)"
  proof (intro allI impI)
    fix i assume i: "i < n"
    let ?u = "\<lambda>y. if y < ?N * ss
                         then ring' (sample_address f fs s ?st ss i (y div ss) + y mod ss)
                         else (targets ! i) y"
    have "?u y = (sources ! i) y" if y: "y < T" for y
    proof -
      have "(y div ss) * ss \<le> y" by simp
      with y have "(y div ss) * ss < T" by linarith
      with frames[of "y div ss"] have k: "y div ss < ?N" by simp
      have dm: "y mod ss < ss" using ss by simp
      from y TN have "?u y = ring' (sample_address f fs s ?st ss i (y div ss) + y mod ss)"
        by simp
      also have "\<dots> = (sources ! i) ((y div ss) * ss + y mod ss)" by (rule co[OF i k dm])
      also have "(y div ss) * ss + y mod ss = y" by simp
      finally show ?thesis .
    qed
    with cr[OF i] show "\<exists>u. res ! i = Some u \<and> (\<forall>y<T. u y = (sources ! i) y)" by blast
  qed
  from M D lr R show ?thesis by blast
qed

section \<open>Claims about the codec\<close>

lemma tick_silence_no_null: "tick_silence b i n bufs c \<noteq> Inl NullDereference"
  using zero_targets_no_null[of "unat n" "int (length bufs)" 0 bufs]
  by (cases "zero_targets (unat n) (int (length bufs)) 0 bufs") (simp_all add: tick_silence_def)

text \<open>
  C4. Whatever the arguments, a call of demux that returns leaves every entry of the
  pointer array with index at or beyond \<^verbatim>\<open>ntargets\<close> as it was (so no source channel
  beyond the targets is written anywhere), and every non-null buffer with index in
  \<^verbatim>\<open>[nsources, ntargets)\<close> has its first \<^verbatim>\<open>targetSize\<close> bytes set to zero, the rest of it
  and the null entries being unchanged. The call returns, without a fault, whenever the
  sample width is positive and the array has \<^verbatim>\<open>ntargets\<close> entries.
\<close>

theorem demux_channel_count_mismatch:
  "(\<forall>res. demux ring muxBufferFirst firstSize muxBufferSecond secondSize targetBuffers
            ntargets nsources targetSize sampleSize = Some (Inr res) \<longrightarrow>
       length res = length targetBuffers \<and>
       (\<forall>k<length targetBuffers.
          (ntargets \<le> int k \<longrightarrow> res ! k = targetBuffers ! k) \<and>
          (nsources \<le> int k \<and> int k < ntargets \<longrightarrow>
             res ! k = map_option (\<lambda>t x. if x < targetSize then 0 else t x)
                         (targetBuffers ! k)))) \<and>
   (0 < sampleSize \<and> ntargets \<le> int (length targetBuffers) \<longrightarrow>
      (\<exists>res. demux ring muxBufferFirst firstSize muxBufferSecond secondSize targetBuffers
               ntargets nsources targetSize sampleSize = Some (Inr res)))"
proof (intro conjI allI impI)
  fix res k
  assume r: "demux ring muxBufferFirst firstSize muxBufferSecond secondSize targetBuffers
            ntargets nsources targetSize sampleSize = Some (Inr res)"
  show "length res = length targetBuffers" by (rule demux_result(1)[OF r])
  assume k: "k < length targetBuffers"
  show "res ! k = targetBuffers ! k" if "ntargets \<le> int k"
    by (rule demux_result(3)[OF r k that])
  show "res ! k = map_option (\<lambda>t x. if x < targetSize then 0 else t x) (targetBuffers ! k)"
    if "nsources \<le> int k \<and> int k < ntargets"
    using that by (intro demux_result(4)[OF r k]) simp_all
next
  assume "0 < sampleSize \<and> ntargets \<le> int (length targetBuffers)"
  then show "\<exists>res. demux ring muxBufferFirst firstSize muxBufferSecond secondSize targetBuffers
               ntargets nsources targetSize sampleSize = Some (Inr res)"
    by (intro demux_total) simp_all
qed

theorem demux_channel_count_mismatch_witness:
  "\<exists>res. demux (\<lambda>x. of_nat x) 0 4 0 0 [Some (\<lambda>x. 7), None, Some (\<lambda>x. 7), Some (\<lambda>x. 7)]
            3 1 4 2 = Some (Inr res) \<and>
         length res = 4 \<and> res ! 1 = None \<and>
         map (the (res ! 2)) [0, 1, 2, 3] = [0, 0, 0, 0] \<and>
         map (the (res ! 3)) [0, 1, 2, 3] = [7, 7, 7, 7]"
proof -
  let ?tbs = "[Some (\<lambda>x. 7), None, Some (\<lambda>x. 7), Some (\<lambda>x. 7)] :: ptr list"
  note t = demux_channel_count_mismatch[of "\<lambda>x. of_nat x" 0 4 0 0 ?tbs 3 1 4 2]
  from t obtain res where
    r: "demux (\<lambda>x. of_nat x) 0 4 0 0 ?tbs 3 1 4 2 = Some (Inr res)" by auto
  with t have l: "length res = 4"
    and k: "\<And>k. k < 4 \<Longrightarrow> (3 \<le> int k \<longrightarrow> res ! k = ?tbs ! k) \<and>
          (1 \<le> int k \<and> int k < 3 \<longrightarrow>
             res ! k = map_option (\<lambda>t x. if x < 4 then 0 else t x) (?tbs ! k))"
    by auto
  from k[of 1] k[of 2] k[of 3] l r show ?thesis by simp
qed

text \<open>
  C6. No call of demux or mux, and no run of a silence loop of tick, dereferences a null
  entry of the array of target pointers: none of them ends in the fault
  \<open>NullDereference\<close>, which is what a copy to, a copy from, or a fill of a null pointer is
  in the model. A null entry is still null afterwards.
\<close>

theorem null_target_never_dereferenced:
  "demux ring muxBufferFirst firstSize muxBufferSecond secondSize targetBuffers ntargets
       nsources targetSize sampleSize \<noteq> Some (Inl NullDereference) \<and>
   mux ring muxBufferFirst firstSize muxBufferSecond secondSize targetBuffers ntargets
       nsources targetSize sampleSize \<noteq> Some (Inl NullDereference) \<and>
   tick_silence bufferIndex i asioBufferSize targetBuffers c \<noteq> Inl NullDereference \<and>
   (\<forall>res. demux ring muxBufferFirst firstSize muxBufferSecond secondSize targetBuffers
            ntargets nsources targetSize sampleSize = Some (Inr res) \<longrightarrow>
          (\<forall>k<length targetBuffers. targetBuffers ! k = None \<longrightarrow> res ! k = None)) \<and>
   (\<forall>res. zero_targets (unat asioBufferSize) (int (length targetBuffers)) 0 targetBuffers =
            Inr res \<longrightarrow>
          (\<forall>k<length targetBuffers. targetBuffers ! k = None \<longrightarrow> res ! k = None))"
proof (intro conjI allI impI)
  show "demux ring muxBufferFirst firstSize muxBufferSecond secondSize targetBuffers ntargets
       nsources targetSize sampleSize \<noteq> Some (Inl NullDereference)"
    by (rule demux_no_null)
  show "mux ring muxBufferFirst firstSize muxBufferSecond secondSize targetBuffers ntargets
       nsources targetSize sampleSize \<noteq> Some (Inl NullDereference)"
    by (rule mux_no_null)
  show "tick_silence bufferIndex i asioBufferSize targetBuffers c \<noteq> Inl NullDereference"
    by (rule tick_silence_no_null)
next
  fix res k
  assume "demux ring muxBufferFirst firstSize muxBufferSecond secondSize targetBuffers
            ntargets nsources targetSize sampleSize = Some (Inr res)"
    and "k < length targetBuffers" and "targetBuffers ! k = None"
  then show "res ! k = None" using demux_result(2) by simp
next
  fix res k
  assume "zero_targets (unat asioBufferSize) (int (length targetBuffers)) 0 targetBuffers =
            Inr res"
    and "k < length targetBuffers" and "targetBuffers ! k = None"
  then show "res ! k = None" using zero_targets_spec by simp
qed

theorem null_target_never_dereferenced_witness:
  "\<exists>res. demux (\<lambda>x. of_nat x) 0 8 0 0 [None, Some (\<lambda>x. 7)] 2 2 4 2 = Some (Inr res) \<and>
         res ! 0 = None \<and>
         mux (\<lambda>x. 0) 0 8 0 0 [None, Some (\<lambda>x. 7)] 2 2 4 2 \<noteq> Some (Inl NullDereference)"
proof -
  let ?tbs = "[None, Some (\<lambda>x. 7)] :: ptr list"
  note t = null_target_never_dereferenced[of "\<lambda>x. of_nat x" 0 8 0 0 ?tbs 2 2 4 2]
  from demux_total[of 2 2 ?tbs "\<lambda>x. of_nat x" 0 8 0 0 2 4] obtain res where
    r: "demux (\<lambda>x. of_nat x) 0 8 0 0 ?tbs 2 2 4 2 = Some (Inr res)" by auto
  with t have "res ! 0 = None" by auto
  moreover from null_target_never_dereferenced[of "\<lambda>x. 0" 0 8 0 0 ?tbs 2 2 4 2]
  have "mux (\<lambda>x. 0) 0 8 0 0 ?tbs 2 2 4 2 \<noteq> Some (Inl NullDereference)" by blast
  ultimately show ?thesis using r by blast
qed

text \<open>
  C5, as the claim is written: two splits with room for the two frames of the period
  (\<open>2 * 4 \<le> 0 + 8\<close> and \<open>2 * 4 \<le> 6 + 2\<close> bytes), two channels of two-byte samples, and
  buffers that hold 1 and 2 everywhere. With an empty first segment nothing is copied,
  and with a first segment of one frame and a half only the first frame is: after mux
  and demux the targets still hold zeroes where the sources hold 1 and 2.
\<close>

theorem round_trip_stops_at_partial_frame:
  "round_trip (constant_buffer 255) 8 0 0 8 [constant_buffer 1, constant_buffer 2]
     [constant_buffer 0, constant_buffer 0] 4 2 = Some [[0, 0, 0, 0], [0, 0, 0, 0]] \<and>
   round_trip (constant_buffer 255) 8 6 0 2 [constant_buffer 1, constant_buffer 2]
     [constant_buffer 0, constant_buffer 0] 4 2 = Some [[1, 1, 0, 0], [2, 2, 0, 0]] \<and>
   read_buffers 4 (map Some [constant_buffer 1, constant_buffer 2]) =
     [[1, 1, 1, 1], [2, 2, 2, 2]]"
  by code_simp

text \<open>
  C5, amended. Round trip. Take \<open>n\<close> non-null per-channel buffers, matching channel
  counts (\<^verbatim>\<open>nsources = ntargets = n\<close>), a positive sample width, and two ring segments
  that do not overlap and on which the frames of one period are whole: they all fit in
  the first segment, or the first segment is not empty, a whole number of frames long,
  and the two segments together hold them all. Then mux returns a ring, and demux of
  that ring with the same segments and sizes, into any \<open>n\<close> non-null buffers, returns
  buffers whose first \<^verbatim>\<open>targetSize\<close> bytes are those of the original buffers, byte for
  byte.
\<close>

theorem mux_demux_round_trip:
  assumes "0 < sampleSize"
    and "length sources = n" and "length targets = n"
    and "whole_frames_capacity firstSize secondSize (sampleSize * n)
           ((targetSize + sampleSize - 1) div sampleSize)"
    and "muxBufferFirst + firstSize \<le> muxBufferSecond \<or>
         muxBufferSecond + secondSize \<le> muxBufferFirst"
  shows "\<exists>ring' res.
      mux ring muxBufferFirst firstSize muxBufferSecond secondSize (map Some sources)
        (int n) (int n) targetSize sampleSize = Some (Inr ring') \<and>
      demux ring' muxBufferFirst firstSize muxBufferSecond secondSize (map Some targets)
        (int n) (int n) targetSize sampleSize = Some (Inr res) \<and>
      length res = n \<and>
      (\<forall>i<n. \<exists>u. res ! i = Some u \<and> (\<forall>y<targetSize. u y = (sources ! i) y))"
  using assms by (rule round_trip_aux)

theorem mux_demux_round_trip_witness:
  "\<exists>ring' res.
      mux (\<lambda>x. 255) 4 4 0 4 (map Some [\<lambda>x. of_nat x, \<lambda>x. of_nat (x + 16)]) 2 2 4 2 =
        Some (Inr ring') \<and>
      demux ring' 4 4 0 4 (map Some [\<lambda>x. 0, \<lambda>x. 0]) 2 2 4 2 = Some (Inr res) \<and>
      length res = 2 \<and>
      (\<forall>i<2. \<exists>u. res ! i = Some u \<and>
           (\<forall>y<4. u y = ([\<lambda>x. of_nat x, \<lambda>x. of_nat (x + 16)] ! i) y))"
  using mux_demux_round_trip[of 2 "[\<lambda>x. of_nat x, \<lambda>x. of_nat (x + 16)]" 2 "[\<lambda>x. 0, \<lambda>x. 0]"
      4 4 4 4 0 "\<lambda>x. 255"]
  by (simp add: whole_frames_capacity_def)

section \<open>The effect of a tick on one endpoint\<close>

declare processNotificationHandleUpdates.simps [simp del] tick_loop.simps [simp del]

lemma view_oscall [simp]: "endpoint_view b i (oscall x c) = endpoint_view b i c"
  by (simp add: endpoint_view_def oscall_def register_at_def asioBuffers_at_def)

lemma view_set_positionRegister [simp]:
  "i \<noteq> j \<Longrightarrow> endpoint_view b i (set_positionRegister j v c) = endpoint_view b i c"
  by (cases "registers c")
     (simp_all add: endpoint_view_def set_positionRegister_def register_at_def asioBuffers_at_def)

lemma view_set_asioBuffers [simp]:
  "i \<noteq> j \<Longrightarrow> endpoint_view b i (set_asioBuffers b' j bufs c) = endpoint_view b i c"
  by (cases "b' < length (asioBuffers c)"; cases "b = b'")
     (simp_all add: endpoint_view_def set_asioBuffers_def register_at_def asioBuffers_at_def)

lemma view_fields [simp]:
  "endpoint_view b i (c\<lparr>sharedBuffer := S\<rparr>) = endpoint_view b i c"
  "endpoint_view b i (c\<lparr>notificationHandles := H\<rparr>) = endpoint_view b i c"
  "endpoint_view b i (c\<lparr>handleQueueStarted := Q\<rparr>) = endpoint_view b i c"
  "endpoint_view b i (c\<lparr>updateSampleRateOnTick := U\<rparr>) = endpoint_view b i c"
  by (simp_all add: endpoint_view_def register_at_def asioBuffers_at_def)

lemma process_done:
  "\<not> k < n \<Longrightarrow> processNotificationHandleUpdates n rs k c = Inr c"
  by (subst processNotificationHandleUpdates.simps) simp

lemma process_fault:
  "k < n \<Longrightarrow> \<not> (k < length rs \<and> response_endpointIndex (rs ! k) < length (notificationHandles c)) \<Longrightarrow>
   processNotificationHandleUpdates n rs k c = Inl IndexOutOfRange"
  by (subst processNotificationHandleUpdates.simps)
     (auto simp: Let_def response_endpointIndex_def)

lemma process_step:
  "k < n \<Longrightarrow> k < length rs \<Longrightarrow> response_endpointIndex (rs ! k) < length (notificationHandles c) \<Longrightarrow>
   processNotificationHandleUpdates n rs k c =
   processNotificationHandleUpdates n rs (k + 1)
     ((if handle (notificationHandles c ! response_endpointIndex (rs ! k)) \<noteq> 0
       then oscall (CloseHandle (handle (notificationHandles c ! response_endpointIndex (rs ! k)))) c
       else c)
      \<lparr>notificationHandles := (notificationHandles c)
          [response_endpointIndex (rs ! k) :=
             \<lparr>generation_nh = ucast (associatedData (rs ! k) AND 0xFFFFFFFF),
              handle = handle_rsp (rs ! k)\<rparr>]\<rparr>)"
  by (subst processNotificationHandleUpdates.simps)
     (simp add: Let_def response_endpointIndex_def oscall_def)

lemma process_shape:
  "processNotificationHandleUpdates n rs k c = Inr c' \<Longrightarrow>
     \<exists>H L. c' = c\<lparr>notificationHandles := H, oscalls := oscalls c @ L\<rparr> \<and>
           length H = length (notificationHandles c) \<and>
           ((\<forall>r \<in> set rs. response_endpointIndex r \<noteq> i) \<longrightarrow> H ! i = notificationHandles c ! i)"
proof (induction "n - k" arbitrary: k c rule: less_induct)
  case less
  show ?case
  proof (cases "k < n")
    case False
    with less.prems have "c' = c" by (simp add: process_done)
    then have "c' = c\<lparr>notificationHandles := notificationHandles c, oscalls := oscalls c @ []\<rparr>"
      by simp
    then show ?thesis by blast
  next
    case True
    show ?thesis
    proof (cases "k < length rs \<and> response_endpointIndex (rs ! k) < length (notificationHandles c)")
      case False
      with True less.prems show ?thesis by (simp add: process_fault)
    next
      case ok: True
      let ?e = "response_endpointIndex (rs ! k)"
      let ?old = "handle (notificationHandles c ! ?e)"
      let ?c2 = "(if ?old \<noteq> 0 then oscall (CloseHandle ?old) c else c)
                  \<lparr>notificationHandles := (notificationHandles c)
                     [?e := \<lparr>generation_nh = ucast (associatedData (rs ! k) AND 0xFFFFFFFF),
                             handle = handle_rsp (rs ! k)\<rparr>]\<rparr>"
      from True ok less.prems have r: "processNotificationHandleUpdates n rs (k + 1) ?c2 = Inr c'"
        by (simp add: process_step)
      have m: "n - (k + 1) < n - k" using True by simp
      from less.hyps[OF m r] obtain H L where c': "c' = ?c2\<lparr>notificationHandles := H, oscalls := oscalls ?c2 @ L\<rparr>"
        and l: "length H = length (notificationHandles ?c2)"
        and p: "(\<forall>r \<in> set rs. response_endpointIndex r \<noteq> i) \<Longrightarrow> H ! i = notificationHandles ?c2 ! i"
        by blast
      have c'': "\<exists>L'. c' = c\<lparr>notificationHandles := H, oscalls := oscalls c @ L'\<rparr>"
      proof (cases "?old \<noteq> 0")
        case True
        with c' have "c' = c\<lparr>notificationHandles := H, oscalls := oscalls c @ (CloseHandle ?old # L)\<rparr>"
          by (simp add: oscall_def)
        then show ?thesis by blast
      next
        case False
        with c' have "c' = c\<lparr>notificationHandles := H, oscalls := oscalls c @ L\<rparr>"
          by simp
        then show ?thesis by blast
      qed
      have l': "length H = length (notificationHandles c)" using l by simp
      have p': "H ! i = notificationHandles c ! i" if a: "\<forall>r \<in> set rs. response_endpointIndex r \<noteq> i"
      proof -
        from ok a have "?e \<noteq> i" by auto
        with p[OF a] show ?thesis by simp
      qed
      from c'' l' p' show ?thesis by blast
    qed
  qed
qed

lemma handles_changed_refl: "handles_changed env i c c"
proof -
  have "c = c\<lparr>notificationHandles := notificationHandles c,
             handleQueueStarted := handleQueueStarted c, oscalls := oscalls c @ []\<rparr>" by simp
  then show ?thesis unfolding handles_changed_def by blast
qed

lemma handles_changed_started:
  assumes "handles_changed env i c c2"
  shows "handles_changed env i c (c2\<lparr>handleQueueStarted := q\<rparr>)"
proof -
  from assms obtain H Q L where
    "c2 = c\<lparr>notificationHandles := H, handleQueueStarted := Q, oscalls := oscalls c @ L\<rparr>"
    and r: "length H = length (notificationHandles c)"
       "\<not> delivers_to env i \<longrightarrow> H ! i = notificationHandles c ! i"
    unfolding handles_changed_def by blast
  then have "c2\<lparr>handleQueueStarted := q\<rparr> =
      c\<lparr>notificationHandles := H, handleQueueStarted := q, oscalls := oscalls c @ L\<rparr>" by simp
  with r show ?thesis unfolding handles_changed_def by blast
qed

lemma handles_changed_oscall:
  assumes "handles_changed env i c c2"
  shows "handles_changed env i c (oscall x c2)"
proof -
  from assms obtain H Q L where
    "c2 = c\<lparr>notificationHandles := H, handleQueueStarted := Q, oscalls := oscalls c @ L\<rparr>"
    and r: "length H = length (notificationHandles c)"
       "\<not> delivers_to env i \<longrightarrow> H ! i = notificationHandles c ! i"
    unfolding handles_changed_def by blast
  then have "oscall x c2 =
      c\<lparr>notificationHandles := H, handleQueueStarted := Q, oscalls := oscalls c @ (L @ [x])\<rparr>"
    by (simp add: oscall_def)
  with r show ?thesis unfolding handles_changed_def by blast
qed

lemma handles_changed_process:
  assumes "handles_changed env i c c2"
    and "processNotificationHandleUpdates n rs 0 c2 = Inr c3"
    and "set rs \<subseteq> set (gqcs_responses env) \<union> set (wait_responses env)"
  shows "handles_changed env i c c3"
proof -
  from assms(1) obtain H Q L where
    c2: "c2 = c\<lparr>notificationHandles := H, handleQueueStarted := Q, oscalls := oscalls c @ L\<rparr>"
    and r: "length H = length (notificationHandles c)"
       "\<not> delivers_to env i \<longrightarrow> H ! i = notificationHandles c ! i"
    unfolding handles_changed_def by blast
  from process_shape[OF assms(2), of i] obtain H' L' where
    c3: "c3 = c2\<lparr>notificationHandles := H', oscalls := oscalls c2 @ L'\<rparr>"
    and r': "length H' = length (notificationHandles c2)"
       "(\<forall>r \<in> set rs. response_endpointIndex r \<noteq> i) \<longrightarrow> H' ! i = notificationHandles c2 ! i"
    by blast
  have "c3 = c\<lparr>notificationHandles := H', handleQueueStarted := Q,
                 oscalls := oscalls c @ (L @ L')\<rparr>"
    using c2 c3 by simp
  moreover have "length H' = length (notificationHandles c)" using r' r c2 by simp
  moreover have "\<not> delivers_to env i \<longrightarrow> H' ! i = notificationHandles c ! i"
    using r' r c2 assms(3) by (auto simp: delivers_to_def)
  ultimately show ?thesis unfolding handles_changed_def by blast
qed

lemma handles_changed_trans:
  assumes "handles_changed env i c c2" "handles_changed env i c2 c3"
  shows "handles_changed env i c c3"
proof -
  from assms(1) obtain H Q L where
    c2: "c2 = c\<lparr>notificationHandles := H, handleQueueStarted := Q, oscalls := oscalls c @ L\<rparr>"
    and r: "length H = length (notificationHandles c)"
       "\<not> delivers_to env i \<longrightarrow> H ! i = notificationHandles c ! i"
    unfolding handles_changed_def by blast
  from assms(2) obtain H' Q' L' where
    c3: "c3 = c2\<lparr>notificationHandles := H', handleQueueStarted := Q',
                  oscalls := oscalls c2 @ L'\<rparr>"
    and r': "length H' = length (notificationHandles c2)"
       "\<not> delivers_to env i \<longrightarrow> H' ! i = notificationHandles c2 ! i"
    unfolding handles_changed_def by blast
  have "c3 = c\<lparr>notificationHandles := H', handleQueueStarted := Q',
                 oscalls := oscalls c @ (L @ L')\<rparr>"
    using c2 c3 by simp
  moreover have "length H' = length (notificationHandles c)" using r' r c2 by simp
  moreover have "\<not> delivers_to env i \<longrightarrow> H' ! i = notificationHandles c ! i"
    using r' r c2 by simp
  ultimately show ?thesis unfolding handles_changed_def by blast
qed

lemma pollHandleQueue_shape:
  assumes "pollHandleQueue h env c = Inr (s, c1)"
  shows "handles_changed env i c c1"
proof (cases "handleQueueStarted c")
  case False
  with assms have "c1 = c\<lparr>handleQueueStarted := True\<rparr>" by (simp add: pollHandleQueue_def)
  with handles_changed_started[OF handles_changed_refl[of env i c]] show ?thesis by simp
next
  case True
  let ?c0 = "oscall (GetQueuedCompletionStatus (completionPort c)) c"
  have c0: "handles_changed env i c ?c0"
    by (rule handles_changed_oscall[OF handles_changed_refl])
  show ?thesis
  proof (cases "gqcs_success env")
    case False
    with True assms have "c1 = ?c0" by (simp add: pollHandleQueue_def Let_def split: if_splits)
    with c0 show ?thesis by simp
  next
    case g: True
    with True assms have "processNotificationHandleUpdates
                            (unat (gqcs_bytes env) div sizeof_SarHandleQueueResponse h)
                            (gqcs_responses env) 0 ?c0 = Inr c1"
      by (simp add: pollHandleQueue_def Let_def split: sum.splits)
    from handles_changed_process[OF c0 this] show ?thesis by simp
  qed
qed

lemma startHandleQueueOperation_shape:
  assumes "startHandleQueueOperation h env c = Inr c'"
  shows "handles_changed env i c c'"
proof -
  let ?c2 = "oscall (DeviceIoControl (device c) SAR_WAIT_HANDLE_QUEUE) c"
  have c2: "handles_changed env i c ?c2"
    by (rule handles_changed_oscall[OF handles_changed_refl])
  let ?ph2 = "if wait_status env then
                  (case processNotificationHandleUpdates
                          (wait_InternalHigh env div sizeof_SarHandleQueueResponse h)
                          (wait_responses env) 0 ?c2 of
                     Inl e \<Rightarrow> Inl e
                   | Inr c3 \<Rightarrow> Inr (c3\<lparr>handleQueueStarted := False\<rparr>))
                else Inr ?c2"
  from assms obtain c4 where ph2: "?ph2 = Inr c4"
    and fin: "c' = (if wait_error env \<noteq> ERROR_IO_PENDING
                        then c4\<lparr>handleQueueStarted := False\<rparr> else c4)"
    by (cases ?ph2) (simp_all add: startHandleQueueOperation_def Let_def)
  have P4: "handles_changed env i c c4"
  proof (cases "wait_status env")
    case False
    with ph2 c2 show ?thesis by simp
  next
    case w: True
    with ph2 obtain c3 where p3: "processNotificationHandleUpdates
                               (wait_InternalHigh env div sizeof_SarHandleQueueResponse h)
                               (wait_responses env) 0 ?c2 = Inr c3"
      and c4: "c4 = c3\<lparr>handleQueueStarted := False\<rparr>"
      by (auto split: sum.splits)
    from handles_changed_process[OF c2 p3] have "handles_changed env i c c3" by simp
    from handles_changed_started[OF this] c4 show ?thesis by simp
  qed
  show ?thesis
  proof (cases "wait_error env \<noteq> ERROR_IO_PENDING")
    case True
    with fin handles_changed_started[OF P4] show ?thesis by simp
  next
    case False
    with fin P4 show ?thesis by simp
  qed
qed

lemma update_shape:
  assumes "updateNotificationHandles h env c = Inr c'"
  shows "handles_changed env i c c'"
proof -
  from assms obtain s c1 where p: "pollHandleQueue h env c = Inr (s, c1)"
    by (cases "pollHandleQueue h env c") (auto simp: updateNotificationHandles_def)
  note P1 = pollHandleQueue_shape[OF p, of i]
  show ?thesis
  proof (cases s)
    case False
    with assms p have "c' = c1" by (simp add: updateNotificationHandles_def)
    with P1 show ?thesis by simp
  next
    case True
    with assms p have "startHandleQueueOperation h env c1 = Inr c'"
      by (simp add: updateNotificationHandles_def)
    from handles_changed_trans[OF P1 startHandleQueueOperation_shape[OF this]]
    show ?thesis .
  qed
qed

lemma handles_changed_view:
  "handles_changed env i c c' \<Longrightarrow> endpoint_view b k c' = endpoint_view b k c"
  unfolding handles_changed_def by (auto simp: endpoint_view_def register_at_def asioBuffers_at_def)

lemma handles_changed_handle:
  "handles_changed env i c c' \<Longrightarrow> \<not> delivers_to env i \<Longrightarrow>
     notificationHandle_at c' i = notificationHandle_at c i"
  unfolding handles_changed_def by (auto simp: notificationHandle_at_def)

lemma step_frame_refl: "step_frame env b j i c c"
  by (simp add: step_frame_def)

lemma step_frame_trans:
  "step_frame env b j i c c1 \<Longrightarrow> step_frame env b j i c1 c2 \<Longrightarrow> step_frame env b j i c c2"
  by (auto simp: step_frame_def)

lemma step_frame_oscall: "step_frame env b j i c (oscall x c)"
  by (simp add: step_frame_def oscall_def register_at_def asioBuffers_at_def
      notificationHandle_at_def)

lemma step_frame_set_positionRegister: "step_frame env b j i c (set_positionRegister j v c)"
  by (cases "registers c")
     (simp_all add: step_frame_def set_positionRegister_def register_at_def asioBuffers_at_def
      notificationHandle_at_def)

lemma step_frame_set_asioBuffers: "step_frame env b j i c (set_asioBuffers b j bufs c)"
  by (cases "b < length (asioBuffers c)")
     (simp_all add: step_frame_def set_asioBuffers_def register_at_def asioBuffers_at_def
      notificationHandle_at_def)

lemma step_frame_sharedBuffer: "step_frame env b j i c (c\<lparr>sharedBuffer := S\<rparr>)"
  by (simp add: step_frame_def register_at_def asioBuffers_at_def notificationHandle_at_def)

lemma step_frame_flag: "step_frame env b j i c (c\<lparr>updateSampleRateOnTick := U\<rparr>)"
  by (simp add: step_frame_def register_at_def asioBuffers_at_def notificationHandle_at_def)

lemma step_frame_handles:
  assumes "handles_changed env i c c'"
  shows "step_frame env b j i c c'"
proof -
  from assms obtain H Q L where
    c': "c' = c\<lparr>notificationHandles := H, handleQueueStarted := Q, oscalls := oscalls c @ L\<rparr>"
    and r: "length H = length (notificationHandles c)"
       "\<not> delivers_to env i \<longrightarrow> H ! i = notificationHandles c ! i"
    unfolding handles_changed_def by blast
  show ?thesis
    unfolding c' using r
    by (simp add: step_frame_def register_at_def asioBuffers_at_def notificationHandle_at_def)
qed

lemma tick_silence_shape:
  assumes "tick_silence b j n bufs c = Inr c'"
  shows "\<exists>bufs'. zero_targets (unat n) (int (length bufs)) 0 bufs = Inr bufs' \<and>
                 c' = set_asioBuffers b j bufs' c"
  using assms by (cases "zero_targets (unat n) (int (length bufs)) 0 bufs")
                 (simp_all add: tick_silence_def)

lemma tick_silence_frame:
  "tick_silence b j n bufs c = Inr c' \<Longrightarrow> step_frame env b j i c c'"
  using tick_silence_shape step_frame_set_asioBuffers by blast

lemma tick_refresh_frame:
  assumes "tick_refresh h env j r st = Inr st'"
  shows "step_frame env b j i (snd st) (snd st')"
proof -
  obtain hu c where st: "st = (hu, c)" by (cases st)
  show ?thesis
  proof (cases "\<not> hu \<and> notificationCount r \<noteq> 0")
    case False
    with assms st have "st' = st" by (auto simp: tick_refresh_def)
    then show ?thesis by (simp add: step_frame_refl)
  next
    case True
    show ?thesis
    proof (cases "notificationHandle_at c j")
      case (Inl e)
      with True assms st show ?thesis by (simp add: tick_refresh_def)
    next
      case (Inr nh)
      show ?thesis
      proof (cases "GENERATION_NUMBER h (generation r) \<noteq> GENERATION_NUMBER h (generation_nh nh)")
        case False
        with Inr True assms st have "st' = st" by (simp add: tick_refresh_def)
        then show ?thesis by (simp add: step_frame_refl)
      next
        case g: True
        with Inr True assms st obtain c' where
          u: "updateNotificationHandles h env c = Inr c'" and s': "st' = (True, c')"
          by (cases "updateNotificationHandles h env c") (auto simp: tick_refresh_def)
        from step_frame_handles[OF update_shape[OF u, of i]] st s' show ?thesis by simp
      qed
    qed
  qed
qed

lemma tick_copy_shape:
  assumes "tick_copy b j r n bufs c = Some (Inr c')"
  shows "(\<exists>bufs' ring. sharedBuffer c = Some ring \<and> endpoints c ! j = Playback \<and>
            c' = set_asioBuffers b j bufs' c \<and>
            demux ring (unat (positionRegister r + bufferOffset r))
              (unat (min (n * activeChannelCount r) (bufferSize r - positionRegister r)))
              (unat (bufferOffset r))
              (unat (n * activeChannelCount r -
                     min (n * activeChannelCount r) (bufferSize r - positionRegister r)))
              bufs (int (length bufs)) (sint (activeChannelCount r)) (unat n)
              (sampleSize_cfg c) = Some (Inr bufs')) \<or>
         (\<exists>ring'. endpoints c ! j \<noteq> Playback \<and> c' = c\<lparr>sharedBuffer := Some ring'\<rparr>)"
proof (cases "sharedBuffer c")
  case None
  with assms show ?thesis by (simp add: tick_copy_def Let_def)
next
  case (Some ring)
  show ?thesis
  proof (cases "endpoints c ! j = Playback")
    case True
    with Some assms show ?thesis
      by (auto simp: tick_copy_def Let_def split: option.splits sum.splits)
  next
    case False
    with Some assms show ?thesis
      by (auto simp: tick_copy_def Let_def split: option.splits sum.splits)
  qed
qed

lemma tick_copy_frame:
  "tick_copy b j r n bufs c = Some (Inr c') \<Longrightarrow> step_frame env b j i c c'"
  using tick_copy_shape[of b j r n bufs c c'] step_frame_set_asioBuffers step_frame_sharedBuffer
  by blast

lemma zero_targets_silenced:
  assumes "zero_targets n (int (length bufs)) 0 bufs = Inr bufs'"
    and "length bufs = length bufs0"
    and "\<And>k. k < length bufs0 \<Longrightarrow> (bufs ! k = None) = (bufs0 ! k = None)"
  shows "silenced n bufs0 bufs'"
proof -
  from zero_targets_spec[OF assms(1)] have l: "length bufs' = length bufs"
    and k: "\<And>k. k < length bufs \<Longrightarrow>
               bufs' ! k = map_option (\<lambda>t x. if x < n then 0 else t x) (bufs ! k)"
    by simp_all
  show ?thesis
    unfolding silenced_def
  proof (intro conjI allI impI)
    show "length bufs' = length bufs0" using l assms(2) by simp
    fix q assume q: "q < length bufs0"
    show "case bufs0 ! q of None \<Rightarrow> bufs' ! q = None
          | Some t \<Rightarrow> \<exists>t'. bufs' ! q = Some t' \<and> (\<forall>x<n. t' x = 0)"
    proof (cases "bufs0 ! q")
      case None
      with assms(3)[OF q] k[of q] q assms(2) show ?thesis by simp
    next
      case (Some t)
      with assms(3)[OF q] obtain t2 where "bufs ! q = Some t2" by auto
      with k[of q] q assms(2) Some show ?thesis by simp
    qed
  qed
qed

lemma at_set_asioBuffers:
  "asioBuffers_at c b i = Inr bufs \<Longrightarrow> asioBuffers_at (set_asioBuffers b i bufs' c) b i = Inr bufs'"
  by (simp add: asioBuffers_at_def set_asioBuffers_def split: if_splits)

lemma register_at_simps [simp]:
  "register_at (set_asioBuffers b j bufs c) i = register_at c i"
  "register_at (oscall x c) i = register_at c i"
  "register_at (c\<lparr>sharedBuffer := S\<rparr>) i = register_at c i"
  by (simp_all add: register_at_def set_asioBuffers_def oscall_def)

lemma register_at_set_positionRegister:
  "register_at c i = Inr r \<Longrightarrow>
     register_at (set_positionRegister i v c) i = Inr (r\<lparr>positionRegister := v\<rparr>)"
  by (cases "registers c")
     (auto simp: register_at_def set_positionRegister_def split: if_splits)

lemma asioBuffers_at_simps [simp]:
  "asioBuffers_at (set_positionRegister j v c) b i = asioBuffers_at c b i"
  "asioBuffers_at (oscall x c) b i = asioBuffers_at c b i"
  "asioBuffers_at (c\<lparr>sharedBuffer := S\<rparr>) b i = asioBuffers_at c b i"
  by (simp_all add: asioBuffers_at_def set_positionRegister_def oscall_def)

lemma notificationHandles_simps [simp]:
  "notificationHandles (set_positionRegister j v c) = notificationHandles c"
  "notificationHandles (set_asioBuffers b j bufs c) = notificationHandles c"
  "notificationHandles (oscall x c) = notificationHandles c"
  by (simp_all add: set_positionRegister_def set_asioBuffers_def oscall_def)

lemma oscalls_simps [simp]:
  "oscalls (set_positionRegister j v c) = oscalls c"
  "oscalls (set_asioBuffers b j bufs c) = oscalls c"
  "oscalls (oscall x c) = oscalls c @ [x]"
  by (simp_all add: set_positionRegister_def set_asioBuffers_def oscall_def)

text \<open>What the publishing step does to endpoint \<open>i\<close>.\<close>

lemma tick_publish_effect:
  assumes run: "tick_publish h env b i r n c = Inr c'"
    and reg: "register_at c i = Inr r"
    and bufs: "asioBuffers_at c b i = Inr bufs"
  shows "notificationHandles c' = notificationHandles c"
    and "generation_race h (generation r) (lateGeneration env i) \<or>
         (notification_due (notificationCount r) (positionRegister r) (nextPosition r n)
            (bufferSize r) \<and> \<not> handle_valid h r (notificationHandles c ! i)) \<Longrightarrow>
         register_at c' i = Inr r \<and> oscalls c' = oscalls c \<and>
         (\<exists>bufs'. asioBuffers_at c' b i = Inr bufs' \<and> silenced (unat n) bufs bufs')"
    and "\<not> generation_race h (generation r) (lateGeneration env i) \<Longrightarrow>
         \<not> (notification_due (notificationCount r) (positionRegister r) (nextPosition r n)
            (bufferSize r) \<and> \<not> handle_valid h r (notificationHandles c ! i)) \<Longrightarrow>
         register_at c' i = Inr (r\<lparr>positionRegister := nextPosition r n\<rparr>) \<and>
         asioBuffers_at c' b i = Inr bufs \<and>
         (if notification_due (notificationCount r) (positionRegister r) (nextPosition r n)
               (bufferSize r)
          then \<exists>rest. oscalls c' = oscalls c @ SetEvent (handle (notificationHandles c ! i)) # rest
          else oscalls c' = oscalls c)"
proof -
  let ?race = "generation_race h (generation r) (lateGeneration env i)"
  let ?due = "notification_due (notificationCount r) (positionRegister r) (nextPosition r n)
            (bufferSize r)"
  let ?nh = "notificationHandles c ! i"
  have sil: "notificationHandles c' = notificationHandles c \<and> register_at c' i = Inr r \<and>
             oscalls c' = oscalls c \<and>
             (\<exists>bufs'. asioBuffers_at c' b i = Inr bufs' \<and> silenced (unat n) bufs bufs')"
    if "tick_silence b i n bufs c = Inr c'"
  proof -
    from tick_silence_shape[OF that] obtain bufs' where
      z: "zero_targets (unat n) (int (length bufs)) 0 bufs = Inr bufs'"
      and c': "c' = set_asioBuffers b i bufs' c" by blast
    from zero_targets_silenced[OF z] have "silenced (unat n) bufs bufs'" by simp
    with c' reg at_set_asioBuffers[OF bufs] show ?thesis by simp
  qed
  have hat: "notificationHandle_at c i = Inr ?nh" if "?due" "\<not> ?race"
  proof (cases "notificationHandle_at c i")
    case (Inl e)
    with run bufs that show ?thesis
      by (simp add: tick_publish_def Let_def generation_race_def nextPosition_def)
  next
    case (Inr nh)
    then show ?thesis by (simp add: notificationHandle_at_def split: if_splits)
  qed
  have A: "tick_silence b i n bufs c = Inr c'" if "?race \<or> (?due \<and> \<not> handle_valid h r ?nh)"
  proof (cases ?race)
    case True
    with run bufs show ?thesis
      by (simp add: tick_publish_def Let_def generation_race_def)
  next
    case False
    with that have d: ?due and nv: "\<not> handle_valid h r ?nh" by simp_all
    from run bufs False d nv hat[OF d False] show ?thesis
      by (simp add: tick_publish_def Let_def generation_race_def nextPosition_def
          handle_valid_def split: if_splits)
  qed
  have B: "c' = (if ?due
                 then (let c1 = oscall (SetEvent (handle ?nh))
                                  (set_positionRegister i (nextPosition r n) c)
                       in if \<not> SetEvent_ok env (handle ?nh)
                          then oscall (LOG_ERROR ''SetEvent error'') c1 else c1)
                 else set_positionRegister i (nextPosition r n) c)"
    if nr: "\<not> ?race" and ok: "\<not> (?due \<and> \<not> handle_valid h r ?nh)"
  proof (cases ?due)
    case False
    with run bufs nr show ?thesis
      by (simp add: tick_publish_def Let_def generation_race_def nextPosition_def)
  next
    case True
    with ok have v: "handle_valid h r ?nh" by simp
    from run bufs nr True v hat[OF True nr] show ?thesis
      by (simp add: tick_publish_def Let_def generation_race_def nextPosition_def
          handle_valid_def split: if_splits)
  qed
  show "notificationHandles c' = notificationHandles c"
  proof (cases "?race \<or> (?due \<and> \<not> handle_valid h r ?nh)")
    case True
    from sil[OF A[OF True]] show ?thesis by simp
  next
    case False
    then have "c' = (if ?due
                 then (let c1 = oscall (SetEvent (handle ?nh))
                                  (set_positionRegister i (nextPosition r n) c)
                       in if \<not> SetEvent_ok env (handle ?nh)
                          then oscall (LOG_ERROR ''SetEvent error'') c1 else c1)
                 else set_positionRegister i (nextPosition r n) c)"
      by (intro B) simp_all
    then show ?thesis by (simp add: Let_def)
  qed
  show "register_at c' i = Inr r \<and> oscalls c' = oscalls c \<and>
         (\<exists>bufs'. asioBuffers_at c' b i = Inr bufs' \<and> silenced (unat n) bufs bufs')"
    if "?race \<or> (?due \<and> \<not> handle_valid h r ?nh)"
    using sil[OF A[OF that]] by simp
  show "register_at c' i = Inr (r\<lparr>positionRegister := nextPosition r n\<rparr>) \<and>
         asioBuffers_at c' b i = Inr bufs \<and>
         (if ?due
          then \<exists>rest. oscalls c' = oscalls c @ SetEvent (handle ?nh) # rest
          else oscalls c' = oscalls c)"
    if "\<not> ?race" "\<not> (?due \<and> \<not> handle_valid h r ?nh)"
    unfolding B[OF that]
    using register_at_set_positionRegister[OF reg, of "nextPosition r n"] bufs
    by (simp add: Let_def)
qed

lemma tick_refresh_shape:
  assumes "tick_refresh h env j r st = Inr st'"
  shows "handles_changed env i (snd st) (snd st')"
proof -
  obtain hu c where st: "st = (hu, c)" by (cases st)
  show ?thesis
  proof (cases "\<not> hu \<and> notificationCount r \<noteq> 0")
    case False
    with assms st have "st' = st" by (auto simp: tick_refresh_def)
    then show ?thesis by (simp add: handles_changed_refl)
  next
    case True
    show ?thesis
    proof (cases "notificationHandle_at c j")
      case (Inl e)
      with True assms st show ?thesis by (simp add: tick_refresh_def)
    next
      case (Inr nh)
      show ?thesis
      proof (cases "GENERATION_NUMBER h (generation r) \<noteq> GENERATION_NUMBER h (generation_nh nh)")
        case False
        with Inr True assms st have "st' = st" by (simp add: tick_refresh_def)
        then show ?thesis by (simp add: handles_changed_refl)
      next
        case g: True
        with Inr True assms st obtain c' where
          u: "updateNotificationHandles h env c = Inr c'" and s': "st' = (True, c')"
          by (cases "updateNotificationHandles h env c") (auto simp: tick_refresh_def)
        from update_shape[OF u, of i] st s' show ?thesis by simp
      qed
    qed
  qed
qed

lemma silenced_shape:
  assumes "silenced n bufs2 bufs'" "length bufs2 = length bufs"
    and "\<And>k. k < length bufs \<Longrightarrow> (bufs2 ! k = None) = (bufs ! k = None)"
  shows "silenced n bufs bufs'"
  unfolding silenced_def
proof (intro conjI allI impI)
  from assms(1,2) show "length bufs' = length bufs" by (simp add: silenced_def)
  fix k assume k: "k < length bufs"
  with assms(1,2) have s: "case bufs2 ! k of None \<Rightarrow> bufs' ! k = None
          | Some t \<Rightarrow> \<exists>t'. bufs' ! k = Some t' \<and> (\<forall>x<n. t' x = 0)"
    by (simp add: silenced_def)
  show "case bufs ! k of None \<Rightarrow> bufs' ! k = None
          | Some t \<Rightarrow> \<exists>t'. bufs' ! k = Some t' \<and> (\<forall>x<n. t' x = 0)"
  proof (cases "bufs ! k")
    case None
    with assms(3)[OF k] s show ?thesis by simp
  next
    case (Some t)
    with assms(3)[OF k] obtain t2 where "bufs2 ! k = Some t2" by auto
    with s Some show ?thesis by simp
  qed
qed

lemma tick_endpoint_reads:
  assumes "tick_endpoint h env b i st = Some (Inr st')"
  shows "\<exists>r bufs. register_at (snd st) i = Inr r \<and> asioBuffers_at (snd st) b i = Inr bufs"
  using assms
  by (cases "asioBuffers_at (snd st) b i"; cases "register_at (snd st) i")
     (simp_all add: tick_endpoint_def)

lemma tick_endpoint_unfold:
  assumes run: "tick_endpoint h env b i st = Some (Inr st')"
    and reg: "register_at (snd st) i = Inr r"
    and bufs: "asioBuffers_at (snd st) b i = Inr bufs"
  shows "\<exists>hu c1. tick_refresh h env i r st = Inr (hu, c1) \<and>
           (if silence_path h r (sharedBufferSize c1)
            then \<exists>c'. tick_silence b i (of_nat (periodFrameSize (snd st) * sampleSize_cfg (snd st)))
                         bufs c1 = Inr c' \<and> st' = (hu, c')
            else \<exists>c2 c3. tick_copy b i r (of_nat (periodFrameSize (snd st) * sampleSize_cfg (snd st)))
                            bufs c1 = Some (Inr c2) \<and>
                          tick_publish h env b i r
                            (of_nat (periodFrameSize (snd st) * sampleSize_cfg (snd st))) c2 = Inr c3 \<and>
                          st' = (hu, c3))"
proof -
  let ?n = "of_nat (periodFrameSize (snd st) * sampleSize_cfg (snd st)) :: DWORD"
  from run reg bufs obtain hu c1 where rf: "tick_refresh h env i r st = Inr (hu, c1)"
    by (cases "tick_refresh h env i r st") (auto simp: tick_endpoint_def Let_def)
  show ?thesis
  proof (cases "silence_path h r (sharedBufferSize c1)")
    case True
    with run reg bufs rf obtain c' where "tick_silence b i ?n bufs c1 = Inr c'" "st' = (hu, c')"
      by (cases "tick_silence b i ?n bufs c1")
         (auto simp: tick_endpoint_def Let_def silence_path_def)
    with True rf show ?thesis by simp
  next
    case False
    with run reg bufs rf obtain c2 where cp: "tick_copy b i r ?n bufs c1 = Some (Inr c2)"
      by (cases "tick_copy b i r ?n bufs c1")
         (auto simp: tick_endpoint_def Let_def silence_path_def split: sum.splits)
    with False run reg bufs rf obtain c3 where
      "tick_publish h env b i r ?n c2 = Inr c3" "st' = (hu, c3)"
      by (cases "tick_publish h env b i r ?n c2")
         (auto simp: tick_endpoint_def Let_def silence_path_def)
    with False rf cp show ?thesis by simp
  qed
qed

lemma tick_endpoint_frame:
  assumes run: "tick_endpoint h env b j st = Some (Inr st')"
  shows "step_frame env b j i (snd st) (snd st')"
proof -
  from tick_endpoint_reads[OF run] obtain r bufs where
    reg: "register_at (snd st) j = Inr r" and bufs: "asioBuffers_at (snd st) b j = Inr bufs"
    by blast
  let ?n = "of_nat (periodFrameSize (snd st) * sampleSize_cfg (snd st)) :: DWORD"
  from tick_endpoint_unfold[OF run reg bufs] obtain hu c1 where
    rf: "tick_refresh h env j r st = Inr (hu, c1)"
    and rest: "if silence_path h r (sharedBufferSize c1)
            then \<exists>c'. tick_silence b j ?n bufs c1 = Inr c' \<and> st' = (hu, c')
            else \<exists>c2 c3. tick_copy b j r ?n bufs c1 = Some (Inr c2) \<and>
                          tick_publish h env b j r ?n c2 = Inr c3 \<and> st' = (hu, c3)"
    by blast
  from tick_refresh_frame[OF rf, of b i] have f1: "step_frame env b j i (snd st) c1" by simp
  show ?thesis
  proof (cases "silence_path h r (sharedBufferSize c1)")
    case True
    with rest obtain c' where "tick_silence b j ?n bufs c1 = Inr c'" "st' = (hu, c')" by auto
    with step_frame_trans[OF f1 tick_silence_frame] show ?thesis by simp
  next
    case False
    with rest obtain c2 c3 where cp: "tick_copy b j r ?n bufs c1 = Some (Inr c2)"
      and pb: "tick_publish h env b j r ?n c2 = Inr c3" and s': "st' = (hu, c3)" by auto
    have f2: "step_frame env b j i c1 c2" by (rule tick_copy_frame[OF cp])
    have f3: "step_frame env b j i c2 c3"
    proof (cases "asioBuffers_at c2 b j")
      case (Inl e)
      with pb show ?thesis by (simp add: tick_publish_def Let_def)
    next
      case (Inr bufs2)
      let ?next = "(positionRegister r + ?n * activeChannelCount r) mod bufferSize r"
      from pb Inr have "tick_silence b j ?n bufs2 c2 = Inr c3 \<or>
          c3 = set_positionRegister j ?next c2 \<or>
          (\<exists>e. c3 = oscall (SetEvent e) (set_positionRegister j ?next c2)) \<or>
          (\<exists>e. c3 = oscall (LOG_ERROR ''SetEvent error'')
                       (oscall (SetEvent e) (set_positionRegister j ?next c2)))"
        by (cases "notificationHandle_at c2 j")
           (auto simp: tick_publish_def Let_def split: if_splits)
      then show ?thesis
      proof (elim disjE exE)
        assume "tick_silence b j ?n bufs2 c2 = Inr c3"
        then show ?thesis by (rule tick_silence_frame)
      next
        assume "c3 = set_positionRegister j ?next c2"
        then show ?thesis by (simp add: step_frame_set_positionRegister)
      next
        fix e assume "c3 = oscall (SetEvent e) (set_positionRegister j ?next c2)"
        then show ?thesis
          using step_frame_trans[OF step_frame_set_positionRegister step_frame_oscall] by simp
      next
        fix e assume "c3 = oscall (LOG_ERROR ''SetEvent error'')
                       (oscall (SetEvent e) (set_positionRegister j ?next c2))"
        then show ?thesis
          using step_frame_trans[OF step_frame_trans[OF step_frame_set_positionRegister
                step_frame_oscall] step_frame_oscall] by simp
      qed
    qed
    from step_frame_trans[OF f1 step_frame_trans[OF f2 f3]] s' show ?thesis by simp
  qed
qed

lemma tick_copy_effect:
  assumes cp: "tick_copy b i r n bufs c = Some (Inr c2)"
    and reg: "register_at c i = Inr r"
    and bufs: "asioBuffers_at c b i = Inr bufs"
  shows "register_at c2 i = Inr r" and "notificationHandles c2 = notificationHandles c"
    and "oscalls c2 = oscalls c"
    and "\<exists>bufs2. asioBuffers_at c2 b i = Inr bufs2 \<and> length bufs2 = length bufs \<and>
                 (\<forall>k<length bufs. (bufs2 ! k = None) = (bufs ! k = None))"
proof -
  from tick_copy_shape[OF cp] consider
    (play) bufs' ring where "c2 = set_asioBuffers b i bufs' c"
      "demux ring (unat (positionRegister r + bufferOffset r))
              (unat (min (n * activeChannelCount r) (bufferSize r - positionRegister r)))
              (unat (bufferOffset r))
              (unat (n * activeChannelCount r -
                     min (n * activeChannelCount r) (bufferSize r - positionRegister r)))
              bufs (int (length bufs)) (sint (activeChannelCount r)) (unat n)
              (sampleSize_cfg c) = Some (Inr bufs')"
    | (rec) ring' where "c2 = c\<lparr>sharedBuffer := Some ring'\<rparr>"
    by blast
  then have "register_at c2 i = Inr r \<and> notificationHandles c2 = notificationHandles c \<and>
      oscalls c2 = oscalls c \<and>
      (\<exists>bufs2. asioBuffers_at c2 b i = Inr bufs2 \<and> length bufs2 = length bufs \<and>
                 (\<forall>k<length bufs. (bufs2 ! k = None) = (bufs ! k = None)))"
  proof cases
    case play
    from demux_result(1,2)[OF play(2)] at_set_asioBuffers[OF bufs, of bufs'] play(1) reg
    show ?thesis by simp
  next
    case rec
    with reg bufs show ?thesis by simp
  qed
  then show "register_at c2 i = Inr r" and "notificationHandles c2 = notificationHandles c"
    and "oscalls c2 = oscalls c"
    and "\<exists>bufs2. asioBuffers_at c2 b i = Inr bufs2 \<and> length bufs2 = length bufs \<and>
                 (\<forall>k<length bufs. (bufs2 ! k = None) = (bufs ! k = None))"
    by simp_all
qed

text \<open>What one iteration of the loop of tick does to the endpoint it processes.\<close>

lemma tick_endpoint_effect:
  assumes run: "tick_endpoint h env b i st = Some (Inr st')"
    and reg: "register_at (snd st) i = Inr r"
    and bufs: "asioBuffers_at (snd st) b i = Inr bufs"
    and n: "n = (of_nat (periodFrameSize (snd st) * sampleSize_cfg (snd st)) :: DWORD)"
  shows "silence_path h r (sharedBufferSize (snd st)) \<or>
         generation_race h (generation r) (lateGeneration env i) \<or>
         (notification_due (notificationCount r) (positionRegister r) (nextPosition r n)
            (bufferSize r) \<and> \<not> handle_valid h r (notificationHandles (snd st') ! i)) \<Longrightarrow>
         register_at (snd st') i = Inr r \<and>
         (\<exists>bufs'. asioBuffers_at (snd st') b i = Inr bufs' \<and> silenced (unat n) bufs bufs')"
    and "\<not> silence_path h r (sharedBufferSize (snd st)) \<Longrightarrow>
         \<not> generation_race h (generation r) (lateGeneration env i) \<Longrightarrow>
         \<not> (notification_due (notificationCount r) (positionRegister r) (nextPosition r n)
            (bufferSize r) \<and> \<not> handle_valid h r (notificationHandles (snd st') ! i)) \<Longrightarrow>
         register_at (snd st') i = Inr (r\<lparr>positionRegister := nextPosition r n\<rparr>) \<and>
         (notification_due (notificationCount r) (positionRegister r) (nextPosition r n)
               (bufferSize r) \<longrightarrow>
          (\<exists>pre post. oscalls (snd st') =
             oscalls (snd st) @ pre @ SetEvent (handle (notificationHandles (snd st') ! i)) # post))"
proof -
  let ?sp = "silence_path h r (sharedBufferSize (snd st))"
  let ?race = "generation_race h (generation r) (lateGeneration env i)"
  let ?due = "notification_due (notificationCount r) (positionRegister r) (nextPosition r n)
            (bufferSize r)"
  let ?nh' = "notificationHandles (snd st') ! i"
  from tick_endpoint_unfold[OF run reg bufs, folded n] obtain hu c1 where
    rf: "tick_refresh h env i r st = Inr (hu, c1)"
    and rest: "if silence_path h r (sharedBufferSize c1)
            then \<exists>c'. tick_silence b i n bufs c1 = Inr c' \<and> st' = (hu, c')
            else \<exists>c2 c3. tick_copy b i r n bufs c1 = Some (Inr c2) \<and>
                          tick_publish h env b i r n c2 = Inr c3 \<and> st' = (hu, c3)"
    by blast
  from tick_refresh_shape[OF rf, of i] have hc: "handles_changed env i (snd st) c1" by simp
  from hc obtain L1 where os1: "oscalls c1 = oscalls (snd st) @ L1"
    unfolding handles_changed_def by auto
  from handles_changed_view[OF hc, of b i] reg bufs have
    reg1: "register_at c1 i = Inr r" and bufs1: "asioBuffers_at c1 b i = Inr bufs"
    and sz: "sharedBufferSize c1 = sharedBufferSize (snd st)"
    by (simp_all add: endpoint_view_def)
  have main: "(?sp \<or> ?race \<or> (?due \<and> \<not> handle_valid h r ?nh') \<longrightarrow>
         register_at (snd st') i = Inr r \<and>
         (\<exists>bufs'. asioBuffers_at (snd st') b i = Inr bufs' \<and> silenced (unat n) bufs bufs')) \<and>
        (\<not> ?sp \<and> \<not> ?race \<and> \<not> (?due \<and> \<not> handle_valid h r ?nh') \<longrightarrow>
         register_at (snd st') i = Inr (r\<lparr>positionRegister := nextPosition r n\<rparr>) \<and>
         (?due \<longrightarrow> (\<exists>pre post. oscalls (snd st') =
                     oscalls (snd st) @ pre @ SetEvent (handle ?nh') # post)))"
  proof (cases ?sp)
    case True
    with rest sz obtain c' where ts: "tick_silence b i n bufs c1 = Inr c'" and s': "st' = (hu, c')"
      by auto
    from tick_silence_shape[OF ts] obtain bufs' where
      z: "zero_targets (unat n) (int (length bufs)) 0 bufs = Inr bufs'"
      and c': "c' = set_asioBuffers b i bufs' c1" by blast
    from zero_targets_silenced[OF z] have "silenced (unat n) bufs bufs'" by simp
    with c' reg1 at_set_asioBuffers[OF bufs1] s' have "register_at (snd st') i = Inr r \<and>
         (\<exists>bufs'. asioBuffers_at (snd st') b i = Inr bufs' \<and> silenced (unat n) bufs bufs')"
      by auto
    with True show ?thesis by blast
  next
    case False
    with rest sz obtain c2 c3 where cp: "tick_copy b i r n bufs c1 = Some (Inr c2)"
      and pb: "tick_publish h env b i r n c2 = Inr c3" and s': "st' = (hu, c3)" by auto
    from tick_copy_effect[OF cp reg1 bufs1] obtain bufs2 where
      reg2: "register_at c2 i = Inr r" and nh2: "notificationHandles c2 = notificationHandles c1"
      and os2: "oscalls c2 = oscalls c1"
      and bufs2: "asioBuffers_at c2 b i = Inr bufs2" and l2: "length bufs2 = length bufs"
      and np: "\<And>k. k < length bufs \<Longrightarrow> (bufs2 ! k = None) = (bufs ! k = None)"
      by blast
    note eff = tick_publish_effect[OF pb reg2 bufs2]
    from eff(1) s' have nh3: "?nh' = notificationHandles c2 ! i" by simp
    show ?thesis
    proof (cases "?race \<or> (?due \<and> \<not> handle_valid h r ?nh')")
      case True
      with eff(2) nh3 obtain bufs' where r3: "register_at c3 i = Inr r"
        and b3: "asioBuffers_at c3 b i = Inr bufs'" and s3: "silenced (unat n) bufs2 bufs'"
        by auto
      from silenced_shape[OF s3 l2 np] have "silenced (unat n) bufs bufs'" .
      with r3 b3 s' have "register_at (snd st') i = Inr r \<and>
         (\<exists>bufs'. asioBuffers_at (snd st') b i = Inr bufs' \<and> silenced (unat n) bufs bufs')"
        by auto
      with True show ?thesis by blast
    next
      case nr: False
      with eff(3) nh3 have "register_at c3 i = Inr (r\<lparr>positionRegister := nextPosition r n\<rparr>)"
        and "if ?due then \<exists>rest. oscalls c3 = oscalls c2 @ SetEvent (handle ?nh') # rest
             else oscalls c3 = oscalls c2"
        by simp_all
      with s' os1 os2 have "register_at (snd st') i = Inr (r\<lparr>positionRegister := nextPosition r n\<rparr>) \<and>
         (?due \<longrightarrow> (\<exists>pre post. oscalls (snd st') =
                     oscalls (snd st) @ pre @ SetEvent (handle ?nh') # post))"
        by (auto split: if_splits)
      with nr False show ?thesis by blast
    qed
  qed
  from main show "?sp \<or> ?race \<or> (?due \<and> \<not> handle_valid h r ?nh') \<Longrightarrow>
         register_at (snd st') i = Inr r \<and>
         (\<exists>bufs'. asioBuffers_at (snd st') b i = Inr bufs' \<and> silenced (unat n) bufs bufs')"
    by blast
  from main show "\<not> ?sp \<Longrightarrow> \<not> ?race \<Longrightarrow> \<not> (?due \<and> \<not> handle_valid h r ?nh') \<Longrightarrow>
         register_at (snd st') i = Inr (r\<lparr>positionRegister := nextPosition r n\<rparr>) \<and>
         (?due \<longrightarrow> (\<exists>pre post. oscalls (snd st') =
                     oscalls (snd st) @ pre @ SetEvent (handle ?nh') # post))"
    by blast
qed

lemma step_frame_other:
  "j \<noteq> i \<Longrightarrow> step_frame env b j i c c' \<Longrightarrow> step_frame env b (Suc i) i c c'"
  by (simp add: step_frame_def)

lemma tick_loop_done: "\<not> k < n \<Longrightarrow> tick_loop h env b n k st = Some (Inr st)"
  by (subst tick_loop.simps) simp

lemma tick_loop_step:
  "k < n \<Longrightarrow> tick_loop h env b n k st =
     (case tick_endpoint h env b k st of
        None \<Rightarrow> None
      | Some (Inl e) \<Rightarrow> Some (Inl e)
      | Some (Inr st') \<Rightarrow> tick_loop h env b n (k + 1) st')"
  by (subst tick_loop.simps) simp

lemma tick_loop_next:
  assumes "tick_loop h env b n k st = Some (Inr st')" "k < n"
  obtains st1 where "tick_endpoint h env b k st = Some (Inr st1)"
    and "tick_loop h env b n (k + 1) st1 = Some (Inr st')"
proof (cases "tick_endpoint h env b k st")
  case None
  with assms show ?thesis by (simp add: tick_loop_step)
next
  case (Some r)
  show ?thesis
  proof (cases r)
    case (Inl e)
    with Some assms show ?thesis by (simp add: tick_loop_step)
  next
    case (Inr st1)
    with Some assms that show ?thesis by (simp add: tick_loop_step)
  qed
qed

lemma tick_loop_kept:
  "tick_loop h env b n k st = Some (Inr st') \<Longrightarrow> i < k \<Longrightarrow>
     step_frame env b (Suc i) i (snd st) (snd st')"
proof (induction "n - k" arbitrary: k st rule: less_induct)
  case less
  show ?case
  proof (cases "k < n")
    case False
    with less.prems have "st' = st" by (simp add: tick_loop_done)
    then show ?thesis by (simp add: step_frame_refl)
  next
    case True
    from tick_loop_next[OF less.prems(1) True] obtain st1 where
      e: "tick_endpoint h env b k st = Some (Inr st1)"
      and l: "tick_loop h env b n (k + 1) st1 = Some (Inr st')" by blast
    have m: "n - (k + 1) < n - k" using True by simp
    from less.prems(2) have ne: "k \<noteq> i" and lt: "i < k + 1" by simp_all
    from step_frame_other[OF ne tick_endpoint_frame[OF e]] less.hyps[OF m l lt]
    show ?thesis by (rule step_frame_trans)
  qed
qed

lemma tick_loop_split:
  "tick_loop h env b n k st = Some (Inr st') \<Longrightarrow> k \<le> i \<Longrightarrow> i < n \<Longrightarrow>
     \<exists>st1 st2. step_frame env b (Suc i) i (snd st) (snd st1) \<and>
               tick_endpoint h env b i st1 = Some (Inr st2) \<and>
               step_frame env b (Suc i) i (snd st2) (snd st')"
proof (induction "n - k" arbitrary: k st rule: less_induct)
  case less
  from less.prems(2,3) have kn: "k < n" by simp
  from tick_loop_next[OF less.prems(1) kn] obtain st1 where
    e: "tick_endpoint h env b k st = Some (Inr st1)"
    and l: "tick_loop h env b n (k + 1) st1 = Some (Inr st')" by blast
  show ?case
  proof (cases "k = i")
    case True
    from tick_loop_kept[OF l, of i] True have "step_frame env b (Suc i) i (snd st1) (snd st')"
      by simp
    with e True step_frame_refl[of env b "Suc i" i "snd st"] show ?thesis by blast
  next
    case False
    with less.prems(2) have le: "k + 1 \<le> i" by simp
    have m: "n - (k + 1) < n - k" using kn by simp
    from less.hyps[OF m l le less.prems(3)] obtain st2 st3 where
      a: "step_frame env b (Suc i) i (snd st1) (snd st2)"
      and b: "tick_endpoint h env b i st2 = Some (Inr st3)"
      and c: "step_frame env b (Suc i) i (snd st3) (snd st')" by blast
    from step_frame_trans[OF step_frame_other[OF False tick_endpoint_frame[OF e]] a] b c
    show ?thesis by blast
  qed
qed

lemma tick_split:
  assumes run: "tick h env b c = Some (Inr c')" and regs: "registers c \<noteq> None"
    and i: "i < length (endpoints c)"
  shows "\<exists>st1 st2. step_frame env b (Suc i) i c (snd st1) \<and>
               tick_endpoint h env b i st1 = Some (Inr st2) \<and>
               step_frame env b (Suc i) i (snd st2) c'"
proof -
  let ?c1 = "if updateSampleRateOnTick c
             then oscall (DeviceIoControl (device c) SAR_SEND_FORMAT_CHANGE_EVENT)
                    (c\<lparr>updateSampleRateOnTick := False\<rparr>)
             else c"
  have f0: "step_frame env b (Suc i) i c ?c1"
    using step_frame_trans[OF step_frame_flag step_frame_oscall] step_frame_refl by simp
  then have ep: "endpoints ?c1 = endpoints c" by (simp add: step_frame_def)
  from run regs obtain st' where
    l: "tick_loop h env b (length (endpoints ?c1)) 0 (False, ?c1) = Some (Inr st')"
    and c': "c' = snd st'"
    by (cases "tick_loop h env b (length (endpoints ?c1)) 0 (False, ?c1)")
       (auto simp: tick_def Let_def split: sum.splits)
  from i ep have i': "i < length (endpoints ?c1)" by simp
  from tick_loop_split[OF l _ i'] obtain st1 st2 where
    a: "step_frame env b (Suc i) i ?c1 (snd st1)"
    and e: "tick_endpoint h env b i st1 = Some (Inr st2)"
    and z: "step_frame env b (Suc i) i (snd st2) (snd st')" by auto
  from step_frame_trans[OF f0 a] e z c' show ?thesis by blast
qed

lemma register_at_Inr:
  "register_at c i = Inr r \<longleftrightarrow> (\<exists>rs. registers c = Some rs \<and> i < length rs \<and> rs ! i = r)"
  by (cases "registers c") (auto simp: register_at_def)

lemma asioBuffers_at_Inr:
  "asioBuffers_at c b i = Inr bufs \<longleftrightarrow>
     (b < length (asioBuffers c) \<and> i < length (asioBuffers c ! b) \<and> asioBuffers c ! b ! i = bufs)"
  by (auto simp: asioBuffers_at_def)

lemma notificationHandle_at_Inr:
  "notificationHandle_at c i = Inr nh \<longleftrightarrow>
     (i < length (notificationHandles c) \<and> notificationHandles c ! i = nh)"
  by (auto simp: notificationHandle_at_def)

text \<open>
  What a whole tick does to endpoint \<open>i\<close>: the iteration for \<open>i\<close> starts from the
  registers and buffers the tick started with, and nothing after it touches them.
  \<open>nh\<close> is the entry of the handle table that the iteration consults.
\<close>

lemma tick_effect:
  assumes run: "tick h env b c = Some (Inr c')" and regs: "registers c = Some rs"
    and i: "i < length (endpoints c)"
    and n: "n = (of_nat (periodFrameSize c * sampleSize_cfg c) :: DWORD)"
  shows "\<exists>rs' nh.
      registers c' = Some rs' \<and> i < length rs \<and> i < length rs' \<and>
      b < length (asioBuffers c) \<and> i < length (asioBuffers c ! b) \<and>
      (\<not> delivers_to env i \<and> i < length (notificationHandles c) \<longrightarrow>
         nh = notificationHandles c ! i) \<and>
      (silence_path h (rs ! i) (sharedBufferSize c) \<or>
       generation_race h (generation (rs ! i)) (lateGeneration env i) \<or>
       (notification_due (notificationCount (rs ! i)) (positionRegister (rs ! i))
          (nextPosition (rs ! i) n) (bufferSize (rs ! i)) \<and> \<not> handle_valid h (rs ! i) nh) \<longrightarrow>
         rs' ! i = rs ! i \<and>
         silenced (unat n) (asioBuffers c ! b ! i) (asioBuffers c' ! b ! i)) \<and>
      (\<not> silence_path h (rs ! i) (sharedBufferSize c) \<and>
       \<not> generation_race h (generation (rs ! i)) (lateGeneration env i) \<and>
       \<not> (notification_due (notificationCount (rs ! i)) (positionRegister (rs ! i))
          (nextPosition (rs ! i) n) (bufferSize (rs ! i)) \<and> \<not> handle_valid h (rs ! i) nh) \<longrightarrow>
         rs' ! i = (rs ! i)\<lparr>positionRegister := nextPosition (rs ! i) n\<rparr> \<and>
         (notification_due (notificationCount (rs ! i)) (positionRegister (rs ! i))
            (nextPosition (rs ! i) n) (bufferSize (rs ! i)) \<longrightarrow>
          (\<exists>pre post. oscalls c' = oscalls c @ pre @ SetEvent (handle nh) # post)))"
proof -
  from regs have rn: "registers c \<noteq> None" by simp
  from tick_split[OF run rn i] obtain st1 st2 where
    f1: "step_frame env b (Suc i) i c (snd st1)"
    and e: "tick_endpoint h env b i st1 = Some (Inr st2)"
    and f2: "step_frame env b (Suc i) i (snd st2) c'" by blast
  note fe = tick_endpoint_frame[OF e, where i = i]
  from tick_endpoint_reads[OF e] obtain r bufs where
    reg1: "register_at (snd st1) i = Inr r" and bufs1: "asioBuffers_at (snd st1) b i = Inr bufs"
    by blast
  from f1 reg1 bufs1 have reg0: "register_at c i = Inr r" and bufs0: "asioBuffers_at c b i = Inr bufs"
    and cfg: "periodFrameSize (snd st1) = periodFrameSize c"
      "sampleSize_cfg (snd st1) = sampleSize_cfg c"
      "sharedBufferSize (snd st1) = sharedBufferSize c"
    by (simp_all add: step_frame_def)
  from reg0 regs have ir: "i < length rs" and r: "r = rs ! i" by (simp_all add: register_at_Inr)
  from bufs0 have ib: "b < length (asioBuffers c)" "i < length (asioBuffers c ! b)"
    and bufs: "bufs = asioBuffers c ! b ! i" by (auto simp: asioBuffers_at_Inr)
  have n1: "n = (of_nat (periodFrameSize (snd st1) * sampleSize_cfg (snd st1)) :: DWORD)"
    using n cfg by simp
  note eff = tick_endpoint_effect[OF e reg1 bufs1 n1, unfolded cfg]
  let ?nh = "notificationHandles (snd st2) ! i"
  let ?due = "notification_due (notificationCount r) (positionRegister r)
          (nextPosition r n) (bufferSize r)"
  let ?sil = "silence_path h r (sharedBufferSize c) \<or>
       generation_race h (generation r) (lateGeneration env i) \<or>
       (?due \<and> \<not> handle_valid h r ?nh)"
  from f2 obtain L2 where os2: "oscalls c' = oscalls (snd st2) @ L2"
    by (auto simp: step_frame_def)
  from f1 obtain L0 where os0: "oscalls (snd st1) = oscalls c @ L0"
    by (auto simp: step_frame_def)
  have nh: "?nh = notificationHandles c ! i"
    if "\<not> delivers_to env i" "i < length (notificationHandles c)"
  proof -
    from f1 fe that(1) have "notificationHandle_at (snd st2) i = notificationHandle_at c i"
      by (simp add: step_frame_def)
    with that(2) show ?thesis by (simp add: notificationHandle_at_def split: if_splits)
  qed
  have A: "\<exists>rs'. registers c' = Some rs' \<and> i < length rs' \<and> rs' ! i = r \<and>
         silenced (unat n) bufs (asioBuffers c' ! b ! i)" if ?sil
  proof -
    from eff(1)[OF that] obtain bufs' where r2: "register_at (snd st2) i = Inr r"
      and b2: "asioBuffers_at (snd st2) b i = Inr bufs'" and s: "silenced (unat n) bufs bufs'"
      by blast
    from f2 r2 b2 have "register_at c' i = Inr r" "asioBuffers_at c' b i = Inr bufs'"
      by (simp_all add: step_frame_def)
    with s show ?thesis by (auto simp: register_at_Inr asioBuffers_at_Inr)
  qed
  have B: "\<exists>rs'. registers c' = Some rs' \<and> i < length rs' \<and>
         rs' ! i = r\<lparr>positionRegister := nextPosition r n\<rparr> \<and>
         (?due \<longrightarrow> (\<exists>pre post. oscalls c' = oscalls c @ pre @ SetEvent (handle ?nh) # post))"
    if "\<not> ?sil"
  proof -
    from that eff(2) have r2: "register_at (snd st2) i = Inr (r\<lparr>positionRegister := nextPosition r n\<rparr>)"
      and ev: "?due \<longrightarrow> (\<exists>pre post. oscalls (snd st2) =
                     oscalls (snd st1) @ pre @ SetEvent (handle ?nh) # post)"
      by simp_all
    from f2 r2 have "register_at c' i = Inr (r\<lparr>positionRegister := nextPosition r n\<rparr>)"
      by (simp add: step_frame_def)
    moreover have "\<exists>pre post. oscalls c' = oscalls c @ pre @ SetEvent (handle ?nh) # post" if ?due
    proof -
      from ev that obtain pre post where
        "oscalls (snd st2) = oscalls (snd st1) @ pre @ SetEvent (handle ?nh) # post" by blast
      with os0 os2 have "oscalls c' = oscalls c @ (L0 @ pre) @ SetEvent (handle ?nh) # (post @ L2)"
        by simp
      then show ?thesis by blast
    qed
    ultimately show ?thesis by (auto simp: register_at_Inr)
  qed
  show ?thesis
  proof (cases ?sil)
    case True
    from A[OF True] obtain rs' where "registers c' = Some rs'" "i < length rs'" "rs' ! i = r"
         "silenced (unat n) bufs (asioBuffers c' ! b ! i)" by blast
    with True ir ib nh r bufs show ?thesis
      by (intro exI[of _ rs'] exI[of _ ?nh]) (simp; blast)
  next
    case False
    from B[OF False] obtain rs' where "registers c' = Some rs'" "i < length rs'"
        "rs' ! i = r\<lparr>positionRegister := nextPosition r n\<rparr>"
        "?due \<longrightarrow> (\<exists>pre post. oscalls c' = oscalls c @ pre @ SetEvent (handle ?nh) # post)"
      by blast
    with False ir ib nh r bufs show ?thesis
      by (intro exI[of _ rs'] exI[of _ ?nh]) (simp; blast)
  qed
qed

lemma tick_ready_layout:
  "layout c' = layout c \<Longrightarrow> tick_ready h env b c \<Longrightarrow> tick_ready h env b c'"
proof -
  assume l: "layout c' = layout c" and r: "tick_ready h env b c"
  from l have ml: "map length (asioBuffers c') = map length (asioBuffers c)"
    and rl: "map_option length (registers c') = map_option length (registers c)"
    and rest: "length (notificationHandles c') = length (notificationHandles c)"
      "(sharedBuffer c' = None) = (sharedBuffer c = None)"
      "sampleSize_cfg c' = sampleSize_cfg c" "endpoints c' = endpoints c"
    by (simp_all add: layout_def)
  from ml have ll: "length (asioBuffers c') = length (asioBuffers c)"
    by (metis length_map)
  from r have b: "b < length (asioBuffers c)" by (simp add: tick_ready_def)
  with ml ll have lb: "length (asioBuffers c' ! b) = length (asioBuffers c ! b)"
    by (metis nth_map)
  from rl rest(4)
  have "(case registers c' of None \<Rightarrow> True | Some rs \<Rightarrow> length (endpoints c') \<le> length rs) =
        (case registers c of None \<Rightarrow> True | Some rs \<Rightarrow> length (endpoints c) \<le> length rs)"
    by (cases "registers c"; cases "registers c'") simp_all
  with r rest ll lb show ?thesis by (simp add: tick_ready_def)
qed

lemma layout_oscall [simp]: "layout (oscall x c) = layout c"
  by (simp add: layout_def oscall_def)

lemma layout_set_positionRegister [simp]: "layout (set_positionRegister j v c) = layout c"
  by (cases "registers c") (simp_all add: layout_def set_positionRegister_def)

lemma layout_set_asioBuffers [simp]: "layout (set_asioBuffers b j bufs c) = layout c"
proof -
  have "(map length (asioBuffers c))[b := length (asioBuffers c ! b)] = map length (asioBuffers c)"
  proof (cases "b < length (asioBuffers c)")
    case True
    then have "length (asioBuffers c ! b) = map length (asioBuffers c) ! b" by simp
    then show ?thesis by (simp only: list_update_id)
  next
    case False
    then have "length (map length (asioBuffers c)) \<le> b" by simp
    then show ?thesis by (rule list_update_beyond)
  qed
  then have "map length ((asioBuffers c)[b := (asioBuffers c ! b)[j := bufs]]) =
             map length (asioBuffers c)"
    by (simp add: map_update)
  then show ?thesis by (simp add: layout_def set_asioBuffers_def)
qed

lemma layout_sharedBuffer [simp]:
  "sharedBuffer c \<noteq> None \<Longrightarrow> layout (c\<lparr>sharedBuffer := Some S\<rparr>) = layout c"
  by (simp add: layout_def)

lemma layout_flag [simp]: "layout (c\<lparr>updateSampleRateOnTick := U\<rparr>) = layout c"
  by (simp add: layout_def)

lemma layout_handles:
  "handles_changed env i c c' \<Longrightarrow> layout c' = layout c"
  unfolding handles_changed_def by (auto simp: layout_def)

lemma process_total:
  "n \<le> length rs \<Longrightarrow>
   (\<forall>r \<in> set rs. response_endpointIndex r < length (notificationHandles c)) \<Longrightarrow>
   \<exists>c'. processNotificationHandleUpdates n rs k c = Inr c'"
proof (induction "n - k" arbitrary: k c rule: less_induct)
  case less
  show ?case
  proof (cases "k < n")
    case False
    then show ?thesis by (simp add: process_done)
  next
    case True
    with less.prems have kl: "k < length rs" by simp
    with less.prems(2) have e: "response_endpointIndex (rs ! k) < length (notificationHandles c)"
      by simp
    have m: "n - (k + 1) < n - k" using True by simp
    show ?thesis
      unfolding process_step[OF True kl e]
      by (rule less.hyps[OF m less.prems(1)]) (use less.prems(2) in \<open>simp add: oscall_def\<close>)
  qed
qed

lemma update_total:
  assumes "env_in_range h env (length (notificationHandles c))"
  shows "\<exists>c'. updateNotificationHandles h env c = Inr c'"
proof -
  have p: "\<exists>c'. processNotificationHandleUpdates n rs 0 c1 = Inr c'"
    if "n \<le> length rs" "set rs \<subseteq> set (gqcs_responses env) \<union> set (wait_responses env)"
      "length (notificationHandles c1) = length (notificationHandles c)" for n rs c1
    using that assms by (intro process_total) (auto simp: env_in_range_def)
  have poll: "\<exists>s c1. pollHandleQueue h env c = Inr (s, c1)"
  proof (cases "handleQueueStarted c \<and> gqcs_success env")
    case False
    then show ?thesis by (auto simp: pollHandleQueue_def Let_def)
  next
    case True
    from p[of "unat (gqcs_bytes env) div sizeof_SarHandleQueueResponse h" "gqcs_responses env"
        "oscall (GetQueuedCompletionStatus (completionPort c)) c"] assms
    obtain c1 where "processNotificationHandleUpdates
        (unat (gqcs_bytes env) div sizeof_SarHandleQueueResponse h) (gqcs_responses env) 0
        (oscall (GetQueuedCompletionStatus (completionPort c)) c) = Inr c1"
      by (auto simp: env_in_range_def)
    with True show ?thesis by (auto simp: pollHandleQueue_def Let_def)
  qed
  then obtain s c1 where pl: "pollHandleQueue h env c = Inr (s, c1)" by blast
  from pollHandleQueue_shape[OF pl, of 0] have l1: "length (notificationHandles c1) = length (notificationHandles c)"
    unfolding handles_changed_def by auto
  have "\<exists>c'. startHandleQueueOperation h env c1 = Inr c'"
  proof (cases "wait_status env")
    case False
    then show ?thesis by (simp add: startHandleQueueOperation_def Let_def)
  next
    case True
    from p[of "wait_InternalHigh env div sizeof_SarHandleQueueResponse h" "wait_responses env"
        "oscall (DeviceIoControl (device c1) SAR_WAIT_HANDLE_QUEUE) c1"] assms l1
    obtain c3 where "processNotificationHandleUpdates
        (wait_InternalHigh env div sizeof_SarHandleQueueResponse h) (wait_responses env) 0
        (oscall (DeviceIoControl (device c1) SAR_WAIT_HANDLE_QUEUE) c1) = Inr c3"
      by (auto simp: env_in_range_def)
    with True show ?thesis by (simp add: startHandleQueueOperation_def Let_def)
  qed
  with pl show ?thesis by (cases s) (auto simp: updateNotificationHandles_def)
qed

lemma tick_silence_total:
  "\<exists>c'. tick_silence b j n bufs c = Inr c' \<and> layout c' = layout c"
proof -
  from zero_targets_total[of "int (length bufs)" bufs "unat n" 0] obtain bufs' where
    "zero_targets (unat n) (int (length bufs)) 0 bufs = Inr bufs'" by auto
  then show ?thesis by (simp add: tick_silence_def)
qed

lemma tick_refresh_total:
  assumes "env_in_range h env (length (notificationHandles c))"
    and "j < length (notificationHandles c)"
  shows "\<exists>hu' c'. tick_refresh h env j r (hu, c) = Inr (hu', c')"
proof (cases "\<not> hu \<and> notificationCount r \<noteq> 0 \<and>
    GENERATION_NUMBER h (generation r) \<noteq> GENERATION_NUMBER h (generation_nh (notificationHandles c ! j))")
  case False
  with assms(2) show ?thesis
    by (auto simp: tick_refresh_def notificationHandle_at_def)
next
  case True
  from update_total[OF assms(1)] obtain c' where "updateNotificationHandles h env c = Inr c'"
    by blast
  with True assms(2) show ?thesis
    by (auto simp: tick_refresh_def notificationHandle_at_def)
qed

lemma tick_copy_total:
  assumes "0 < sampleSize_cfg c" "sharedBuffer c \<noteq> None"
  shows "\<exists>c'. tick_copy b j r n bufs c = Some (Inr c') \<and> layout c' = layout c"
proof -
  from assms(2) obtain ring where ring: "sharedBuffer c = Some ring" by auto
  let ?f = "unat (positionRegister r + bufferOffset r)"
  let ?fs = "unat (min (n * activeChannelCount r) (bufferSize r - positionRegister r))"
  let ?s = "unat (bufferOffset r)"
  let ?sz = "unat (n * activeChannelCount r -
                     min (n * activeChannelCount r) (bufferSize r - positionRegister r))"
  show ?thesis
  proof (cases "endpoints c ! j = Playback")
    case True
    from demux_total[OF assms(1), of "int (length bufs)" bufs ring ?f ?fs ?s ?sz
        "sint (activeChannelCount r)" "unat n"]
    obtain bufs' where "demux ring ?f ?fs ?s ?sz bufs (int (length bufs))
        (sint (activeChannelCount r)) (unat n) (sampleSize_cfg c) = Some (Inr bufs')" by auto
    with True ring show ?thesis by (simp add: tick_copy_def Let_def)
  next
    case False
    from mux_total[OF assms(1), of "int (length bufs)" bufs ring ?f ?fs ?s ?sz
        "sint (activeChannelCount r)" "unat n"]
    obtain ring' where "mux ring ?f ?fs ?s ?sz bufs (int (length bufs))
        (sint (activeChannelCount r)) (unat n) (sampleSize_cfg c) = Some (Inr ring')" by auto
    with False ring assms(2) show ?thesis by (simp add: tick_copy_def Let_def)
  qed
qed

lemma tick_publish_total:
  assumes "asioBuffers_at c b j = Inr bufs" "j < length (notificationHandles c)"
  shows "\<exists>c'. tick_publish h env b j r n c = Inr c' \<and> layout c' = layout c"
proof -
  from tick_silence_total[of b j n bufs c] obtain cs where
    s: "tick_silence b j n bufs c = Inr cs" "layout cs = layout c" by blast
  let ?next = "(positionRegister r + n * activeChannelCount r) mod bufferSize r"
  let ?nh = "notificationHandles c ! j"
  from assms(2) have nh: "notificationHandle_at c j = Inr ?nh"
    by (simp add: notificationHandle_at_def)
  show ?thesis
  proof (cases "\<not> GENERATION_IS_ACTIVE h (lateGeneration env j) \<or>
                 GENERATION_NUMBER h (generation r) \<noteq> GENERATION_NUMBER h (lateGeneration env j)")
    case True
    with assms(1) s show ?thesis by (simp add: tick_publish_def Let_def)
  next
    case nr: False
    show ?thesis
    proof (cases "notification_due (notificationCount r) (positionRegister r) ?next (bufferSize r)")
      case False
      with nr assms(1) show ?thesis by (simp add: tick_publish_def Let_def)
    next
      case True
      show ?thesis
      proof (cases "handle ?nh \<noteq> 0 \<and>
                     GENERATION_NUMBER h (generation_nh ?nh) = GENERATION_NUMBER h (generation r)")
        case False
        with True nr assms(1) nh s show ?thesis by (simp add: tick_publish_def Let_def)
      next
        case v: True
        with True nr assms(1) nh show ?thesis by (simp add: tick_publish_def Let_def)
      qed
    qed
  qed
qed

lemma layout_in_range:
  assumes "layout c' = layout c"
  shows "(\<exists>bufs. asioBuffers_at c' b j = Inr bufs) = (\<exists>bufs. asioBuffers_at c b j = Inr bufs)"
    and "length (notificationHandles c') = length (notificationHandles c)"
    and "(sharedBuffer c' = None) = (sharedBuffer c = None)"
    and "sampleSize_cfg c' = sampleSize_cfg c"
    and "(registers c' = None) = (registers c = None)"
proof -
  from assms have ml: "map length (asioBuffers c') = map length (asioBuffers c)"
    and rl: "map_option length (registers c') = map_option length (registers c)"
    by (simp_all add: layout_def)
  from ml have ll: "length (asioBuffers c') = length (asioBuffers c)" by (metis length_map)
  have "length (asioBuffers c' ! b) = length (asioBuffers c ! b)" if "b < length (asioBuffers c)"
    using that ml ll by (metis nth_map)
  with ll show "(\<exists>bufs. asioBuffers_at c' b j = Inr bufs) = (\<exists>bufs. asioBuffers_at c b j = Inr bufs)"
    by (auto simp: asioBuffers_at_def)
  from rl show "(registers c' = None) = (registers c = None)"
    by (cases "registers c"; cases "registers c'") simp_all
  from assms show "length (notificationHandles c') = length (notificationHandles c)"
    "(sharedBuffer c' = None) = (sharedBuffer c = None)" "sampleSize_cfg c' = sampleSize_cfg c"
    by (simp_all add: layout_def)
qed

lemma tick_endpoint_total:
  assumes ready: "tick_ready h env b c" and regs: "registers c \<noteq> None"
    and k: "k < length (endpoints c)"
  shows "\<exists>st'. tick_endpoint h env b k (hu, c) = Some (Inr st') \<and> layout (snd st') = layout c"
proof -
  from ready k have bufs: "asioBuffers_at c b k = Inr (asioBuffers c ! b ! k)"
    and kh: "k < length (notificationHandles c)"
    and env: "env_in_range h env (length (notificationHandles c))"
    and ss: "0 < sampleSize_cfg c" and sb: "sharedBuffer c \<noteq> None"
    by (simp_all add: tick_ready_def asioBuffers_at_def)
  from ready regs k obtain r where reg: "register_at c k = Inr r"
    by (cases "registers c") (auto simp: tick_ready_def register_at_def)
  let ?bufs = "asioBuffers c ! b ! k"
  let ?n = "of_nat (periodFrameSize c * sampleSize_cfg c) :: DWORD"
  from tick_refresh_total[OF env kh] obtain hu1 c1 where
    rf: "tick_refresh h env k r (hu, c) = Inr (hu1, c1)" by blast
  from tick_refresh_shape[OF rf, of k] have hc: "handles_changed env k c c1" by simp
  note l1 = layout_handles[OF hc]
  note r1 = layout_in_range[OF l1]
  show ?thesis
  proof (cases "silence_path h r (sharedBufferSize c1)")
    case True
    from tick_silence_total[of b k ?n ?bufs c1] obtain c' where
      "tick_silence b k ?n ?bufs c1 = Inr c'" "layout c' = layout c1" by blast
    with True bufs reg rf l1 show ?thesis
      by (simp add: tick_endpoint_def Let_def silence_path_def)
  next
    case False
    from ss sb r1 have "0 < sampleSize_cfg c1" "sharedBuffer c1 \<noteq> None" by simp_all
    from tick_copy_total[OF this, of b k r ?n ?bufs] obtain c2 where
      cp: "tick_copy b k r ?n ?bufs c1 = Some (Inr c2)" and l2: "layout c2 = layout c1" by blast
    note r2 = layout_in_range[OF l2]
    from r2(1)[of b k] r1(1)[of b k] bufs obtain bufs2 where
      b2: "asioBuffers_at c2 b k = Inr bufs2" by auto
    from r2(2) r1(2) kh have kh2: "k < length (notificationHandles c2)" by simp
    from tick_publish_total[OF b2 kh2, of h env r ?n] obtain c3 where
      "tick_publish h env b k r ?n c2 = Inr c3" "layout c3 = layout c2" by blast
    with False bufs reg rf cp l1 l2 show ?thesis
      by (simp add: tick_endpoint_def Let_def silence_path_def)
  qed
qed

lemma tick_loop_total:
  "tick_ready h env b (snd st) \<Longrightarrow> registers (snd st) \<noteq> None \<Longrightarrow>
   n = length (endpoints (snd st)) \<Longrightarrow>
   \<exists>st'. tick_loop h env b n k st = Some (Inr st')"
proof (induction "n - k" arbitrary: k st rule: less_induct)
  case less
  show ?case
  proof (cases "k < n")
    case False
    then show ?thesis by (simp add: tick_loop_done)
  next
    case True
    obtain hu c where st: "st = (hu, c)" by (cases st)
    from True less.prems(3) st have k: "k < length (endpoints c)" by simp
    from less.prems st have ready: "tick_ready h env b c" and regs: "registers c \<noteq> None"
      by simp_all
    from tick_endpoint_total[OF ready regs k, of hu] st obtain st1 where
      e: "tick_endpoint h env b k st = Some (Inr st1)" and l: "layout (snd st1) = layout c"
      by auto
    have m: "n - (k + 1) < n - k" using True by simp
    from tick_ready_layout[OF l ready] have r1: "tick_ready h env b (snd st1)" .
    from layout_in_range(5)[OF l] regs have g1: "registers (snd st1) \<noteq> None" by simp
    from l less.prems(3) st have n1: "n = length (endpoints (snd st1))" by (simp add: layout_def)
    from less.hyps[OF m r1 g1 n1] e True show ?thesis by (simp add: tick_loop_step)
  qed
qed

lemma tick_total:
  assumes "tick_ready h env b c"
  shows "\<exists>c'. tick h env b c = Some (Inr c')"
proof (cases "registers c")
  case None
  then show ?thesis by (simp add: tick_def)
next
  case (Some rs)
  let ?c1 = "if updateSampleRateOnTick c
             then oscall (DeviceIoControl (device c) SAR_SEND_FORMAT_CHANGE_EVENT)
                    (c\<lparr>updateSampleRateOnTick := False\<rparr>)
             else c"
  have l: "layout ?c1 = layout c" by simp
  from tick_ready_layout[OF l assms] have r1: "tick_ready h env b (snd (False, ?c1))" by simp
  from layout_in_range(5)[OF l] Some have g1: "registers (snd (False, ?c1)) \<noteq> None" by simp
  from tick_loop_total[OF r1 g1, of "length (endpoints ?c1)" 0] obtain st' where
    "tick_loop h env b (length (endpoints ?c1)) 0 (False, ?c1) = Some (Inr st')" by auto
  with Some show ?thesis by (simp add: tick_def Let_def)
qed

lemma poke_fields [simp]:
  "endpoints (with_buffer_registers i x y c) = endpoints c"
  "periodFrameSize (with_buffer_registers i x y c) = periodFrameSize c"
  "sampleSize_cfg (with_buffer_registers i x y c) = sampleSize_cfg c"
  "asioBuffers (with_buffer_registers i x y c) = asioBuffers c"
  "device (with_buffer_registers i x y c) = device c"
  "completionPort (with_buffer_registers i x y c) = completionPort c"
  "handleQueueStarted (with_buffer_registers i x y c) = handleQueueStarted c"
  "sharedBuffer (with_buffer_registers i x y c) = sharedBuffer c"
  "sharedBufferSize (with_buffer_registers i x y c) = sharedBufferSize c"
  "notificationHandles (with_buffer_registers i x y c) = notificationHandles c"
  "updateSampleRateOnTick (with_buffer_registers i x y c) = updateSampleRateOnTick c"
  "oscalls (with_buffer_registers i x y c) = oscalls c"
  "(registers (with_buffer_registers i x y c) = None) = (registers c = None)"
  by (simp_all add: with_buffer_registers_def)

lemma poke_updates [simp]:
  "with_buffer_registers i x y (c\<lparr>notificationHandles := H\<rparr>) =
     (with_buffer_registers i x y c)\<lparr>notificationHandles := H\<rparr>"
  "with_buffer_registers i x y (c\<lparr>handleQueueStarted := Q\<rparr>) =
     (with_buffer_registers i x y c)\<lparr>handleQueueStarted := Q\<rparr>"
  "with_buffer_registers i x y (c\<lparr>sharedBuffer := S\<rparr>) =
     (with_buffer_registers i x y c)\<lparr>sharedBuffer := S\<rparr>"
  "with_buffer_registers i x y (c\<lparr>updateSampleRateOnTick := U\<rparr>) =
     (with_buffer_registers i x y c)\<lparr>updateSampleRateOnTick := U\<rparr>"
  by (simp_all add: with_buffer_registers_def)

lemma poke_oscall [simp]:
  "oscall e (with_buffer_registers i x y c) = with_buffer_registers i x y (oscall e c)"
  by (simp add: with_buffer_registers_def oscall_def)

lemma poke_set_asioBuffers [simp]:
  "set_asioBuffers b j bufs (with_buffer_registers i x y c) =
     with_buffer_registers i x y (set_asioBuffers b j bufs c)"
  by (simp add: with_buffer_registers_def set_asioBuffers_def)

lemma poke_set_positionRegister [simp]:
  "set_positionRegister j v (with_buffer_registers i x y c) =
     with_buffer_registers i x y (set_positionRegister j v c)"
proof (cases "registers c")
  case None
  then show ?thesis by (simp add: with_buffer_registers_def set_positionRegister_def)
next
  case (Some rs)
  have "(rs[i := (rs ! i)\<lparr>bufferOffset := x, bufferSize := y\<rparr>])
          [j := (rs[i := (rs ! i)\<lparr>bufferOffset := x, bufferSize := y\<rparr>] ! j)\<lparr>positionRegister := v\<rparr>] =
        (rs[j := (rs ! j)\<lparr>positionRegister := v\<rparr>])
          [i := (rs[j := (rs ! j)\<lparr>positionRegister := v\<rparr>] ! i)\<lparr>bufferOffset := x, bufferSize := y\<rparr>]"
  proof (cases "i = j")
    case False
    then show ?thesis by (simp add: list_update_swap)
  next
    case True
    show ?thesis
    proof (cases "i < length rs")
      case False
      then have "length rs \<le> i" by simp
      then have "rs[i := a] = rs" for a by (rule list_update_beyond)
      with True show ?thesis by simp
    next
      case l: True
      have aux: "r\<lparr>bufferOffset := x, bufferSize := y, positionRegister := v\<rparr> =
            r\<lparr>positionRegister := v, bufferOffset := x, bufferSize := y\<rparr>"
        for r :: SarEndpointRegisters
        by (cases r) simp
      have "(rs[j := (rs ! j)\<lparr>bufferOffset := x, bufferSize := y\<rparr>])
              [j := (rs[j := (rs ! j)\<lparr>bufferOffset := x, bufferSize := y\<rparr>] ! j)
                      \<lparr>positionRegister := v\<rparr>] =
            rs[j := (rs ! j)\<lparr>bufferOffset := x, bufferSize := y, positionRegister := v\<rparr>]"
        using l True by simp
      also have "\<dots> = rs[j := (rs ! j)\<lparr>positionRegister := v, bufferOffset := x, bufferSize := y\<rparr>]"
        by (simp only: aux)
      also have "\<dots> = (rs[j := (rs ! j)\<lparr>positionRegister := v\<rparr>])
              [j := (rs[j := (rs ! j)\<lparr>positionRegister := v\<rparr>] ! j)
                      \<lparr>bufferOffset := x, bufferSize := y\<rparr>]"
        using l True by simp
      finally show ?thesis unfolding True .
    qed
  qed
  with Some show ?thesis by (simp add: with_buffer_registers_def set_positionRegister_def)
qed

lemma poke_asioBuffers_at [simp]:
  "asioBuffers_at (with_buffer_registers i x y c) b j = asioBuffers_at c b j"
  by (simp add: asioBuffers_at_def)

lemma poke_notificationHandle_at [simp]:
  "notificationHandle_at (with_buffer_registers i x y c) j = notificationHandle_at c j"
  by (simp add: notificationHandle_at_def)

lemma poke_register_at:
  "register_at (with_buffer_registers i x y c) j =
     (case register_at c j of
        Inl e \<Rightarrow> Inl e
      | Inr r \<Rightarrow> Inr (if j = i then r\<lparr>bufferOffset := x, bufferSize := y\<rparr> else r))"
  by (cases "registers c") (simp_all add: register_at_def with_buffer_registers_def)

lemma poke_process:
  "processNotificationHandleUpdates n rs k (with_buffer_registers i x y c) =
     map_sum id (with_buffer_registers i x y) (processNotificationHandleUpdates n rs k c)"
proof (induction "n - k" arbitrary: k c rule: less_induct)
  case less
  show ?case
  proof (cases "k < n")
    case False
    then show ?thesis by (simp add: process_done)
  next
    case True
    show ?thesis
    proof (cases "k < length rs \<and> response_endpointIndex (rs ! k) < length (notificationHandles c)")
      case False
      with True show ?thesis by (simp add: process_fault)
    next
      case ok: True
      have m: "n - (k + 1) < n - k" using True by simp
      let ?e = "response_endpointIndex (rs ! k)"
      let ?step = "\<lambda>c. (if handle (notificationHandles c ! ?e) \<noteq> 0
                        then oscall (CloseHandle (handle (notificationHandles c ! ?e))) c else c)
                  \<lparr>notificationHandles := (notificationHandles c)
                     [?e := \<lparr>generation_nh = ucast (associatedData (rs ! k) AND 0xFFFFFFFF),
                             handle = handle_rsp (rs ! k)\<rparr>]\<rparr>"
      have st: "?step (with_buffer_registers i x y c) = with_buffer_registers i x y (?step c)"
        by simp
      have "processNotificationHandleUpdates n rs k (with_buffer_registers i x y c) =
            processNotificationHandleUpdates n rs (k + 1) (?step (with_buffer_registers i x y c))"
        using ok True by (intro process_step) simp_all
      also have "\<dots> = map_sum id (with_buffer_registers i x y)
                        (processNotificationHandleUpdates n rs (k + 1) (?step c))"
        unfolding st by (rule less.hyps[OF m])
      also have "processNotificationHandleUpdates n rs (k + 1) (?step c) =
                 processNotificationHandleUpdates n rs k c"
        using ok True by (intro process_step[symmetric]) simp_all
      finally show ?thesis .
    qed
  qed
qed

lemma poke_poll:
  "pollHandleQueue h env (with_buffer_registers i x y c) =
     map_sum id (\<lambda>(s, c'). (s, with_buffer_registers i x y c')) (pollHandleQueue h env c)"
  by (cases "processNotificationHandleUpdates
               (unat (gqcs_bytes env) div sizeof_SarHandleQueueResponse h) (gqcs_responses env) 0
               (oscall (GetQueuedCompletionStatus (completionPort c)) c)")
     (simp_all add: pollHandleQueue_def Let_def poke_process)

lemma poke_start:
  "startHandleQueueOperation h env (with_buffer_registers i x y c) =
     map_sum id (with_buffer_registers i x y) (startHandleQueueOperation h env c)"
  by (cases "processNotificationHandleUpdates
               (wait_InternalHigh env div sizeof_SarHandleQueueResponse h) (wait_responses env) 0
               (oscall (DeviceIoControl (device c) SAR_WAIT_HANDLE_QUEUE) c)")
     (simp_all add: startHandleQueueOperation_def Let_def poke_process)

lemma poke_update:
  "updateNotificationHandles h env (with_buffer_registers i x y c) =
     map_sum id (with_buffer_registers i x y) (updateNotificationHandles h env c)"
proof (cases "pollHandleQueue h env c")
  case (Inl e)
  then show ?thesis by (simp add: updateNotificationHandles_def poke_poll)
next
  case (Inr p)
  obtain s c1 where p: "p = (s, c1)" by (cases p)
  with Inr show ?thesis by (simp add: updateNotificationHandles_def poke_poll poke_start)
qed

lemma poke_silence:
  "tick_silence b j n bufs (with_buffer_registers i x y c) =
     map_sum id (with_buffer_registers i x y) (tick_silence b j n bufs c)"
  by (cases "zero_targets (unat n) (int (length bufs)) 0 bufs") (simp_all add: tick_silence_def)

lemma poke_refresh:
  assumes "generation r' = generation r" "notificationCount r' = notificationCount r"
  shows "tick_refresh h env j r' (hu, with_buffer_registers i x y c) =
     map_sum id (\<lambda>(hu', c'). (hu', with_buffer_registers i x y c')) (tick_refresh h env j r (hu, c))"
proof (cases "notificationHandle_at c j")
  case (Inl e)
  with assms show ?thesis by (simp add: tick_refresh_def)
next
  case (Inr nh)
  with assms show ?thesis
    by (cases "updateNotificationHandles h env c") (simp_all add: tick_refresh_def poke_update)
qed

lemma poke_copy:
  "tick_copy b j r n bufs (with_buffer_registers i x y c) =
     map_option (map_sum id (with_buffer_registers i x y)) (tick_copy b j r n bufs c)"
proof (cases "sharedBuffer c")
  case None
  then show ?thesis by (simp add: tick_copy_def Let_def)
next
  case (Some ring)
  let ?f = "unat (positionRegister r + bufferOffset r)"
  let ?fs = "unat (min (n * activeChannelCount r) (bufferSize r - positionRegister r))"
  let ?s = "unat (bufferOffset r)"
  let ?sz = "unat (n * activeChannelCount r -
                     min (n * activeChannelCount r) (bufferSize r - positionRegister r))"
  show ?thesis
  proof (cases "endpoints c ! j = Playback")
    case True
    show ?thesis
    proof (cases "demux ring ?f ?fs ?s ?sz bufs (int (length bufs))
        (sint (activeChannelCount r)) (unat n) (sampleSize_cfg c)")
      case None
      with True Some show ?thesis by (simp add: tick_copy_def Let_def)
    next
      case d: (Some res)
      with True Some show ?thesis by (cases res) (simp_all add: tick_copy_def Let_def)
    qed
  next
    case False
    show ?thesis
    proof (cases "mux ring ?f ?fs ?s ?sz bufs (int (length bufs))
        (sint (activeChannelCount r)) (unat n) (sampleSize_cfg c)")
      case None
      with False Some show ?thesis by (simp add: tick_copy_def Let_def)
    next
      case d: (Some res)
      with False Some show ?thesis by (cases res) (simp_all add: tick_copy_def Let_def)
    qed
  qed
qed

lemma poke_publish:
  "tick_publish h env b j r n (with_buffer_registers i x y c) =
     map_sum id (with_buffer_registers i x y) (tick_publish h env b j r n c)"
proof (cases "asioBuffers_at c b j")
  case (Inl e)
  then show ?thesis by (simp add: tick_publish_def Let_def)
next
  case (Inr bufs)
  show ?thesis
  proof (cases "notificationHandle_at c j")
    case (Inl e)
    with Inr show ?thesis by (simp add: tick_publish_def Let_def poke_silence)
  next
    case nh: (Inr nh)
    with Inr show ?thesis by (simp add: tick_publish_def Let_def poke_silence)
  qed
qed

lemma poke_endpoint:
  assumes "inactive_at h i c"
  shows "tick_endpoint h env b j (hu, with_buffer_registers i x y c) =
     map_option (map_sum id (\<lambda>(hu', c'). (hu', with_buffer_registers i x y c')))
       (tick_endpoint h env b j (hu, c))"
proof (cases "asioBuffers_at c b j")
  case (Inl e)
  then show ?thesis by (simp add: tick_endpoint_def)
next
  case (Inr bufs)
  show ?thesis
  proof (cases "register_at c j")
    case (Inl e)
    with Inr show ?thesis by (simp add: tick_endpoint_def poke_register_at)
  next
    case reg: (Inr r)
    let ?r' = "if j = i then r\<lparr>bufferOffset := x, bufferSize := y\<rparr> else r"
    let ?n = "of_nat (periodFrameSize c * sampleSize_cfg c) :: DWORD"
    have reg': "register_at (with_buffer_registers i x y c) j = Inr ?r'"
      using reg by (simp add: poke_register_at)
    have gr: "generation ?r' = generation r" "notificationCount ?r' = notificationCount r"
      by simp_all
    note rf = poke_refresh[OF gr, of h env j hu i x y c]
    show ?thesis
    proof (cases "tick_refresh h env j r (hu, c)")
      case (Inl e)
      with Inr reg reg' rf show ?thesis by (simp add: tick_endpoint_def Let_def)
    next
      case rr: (Inr p)
      obtain hu1 c1 where p: "p = (hu1, c1)" by (cases p)
      from rr p rf have rf': "tick_refresh h env j ?r' (hu, with_buffer_registers i x y c) =
          Inr (hu1, with_buffer_registers i x y c1)" by simp
      show ?thesis
      proof (cases "j = i")
        case True
        with assms reg have ia: "\<not> GENERATION_IS_ACTIVE h (generation r)"
          by (simp add: inactive_at_def)
        from True ia Inr reg reg' rr p rf' show ?thesis
          by (cases "tick_silence b i ?n bufs c1")
             (simp_all add: tick_endpoint_def Let_def poke_silence)
      next
        case False
        then have r': "?r' = r" by simp
        show ?thesis
        proof (cases "\<not> GENERATION_IS_ACTIVE h (generation r) \<or> bufferSize r = 0 \<or>
                       positionRegister r > bufferSize r \<or>
                       bufferOffset r + bufferSize r > sharedBufferSize c1")
          case True
          with Inr reg reg' rr p rf' r' show ?thesis
            by (cases "tick_silence b j ?n bufs c1")
               (simp_all add: tick_endpoint_def Let_def poke_silence)
        next
          case ns: False
          show ?thesis
          proof (cases "tick_copy b j r ?n bufs c1")
            case None
            with ns Inr reg reg' rr p rf' r' show ?thesis
              by (simp add: tick_endpoint_def Let_def poke_copy)
          next
            case (Some q)
            show ?thesis
            proof (cases q)
              case (Inl e)
              with Some ns Inr reg reg' rr p rf' r' show ?thesis
                by (simp add: tick_endpoint_def Let_def poke_copy)
            next
              case c2: (Inr c2)
              with Some ns Inr reg reg' rr p rf' r' show ?thesis
                by (cases "tick_publish h env b j r ?n c2")
                   (simp_all add: tick_endpoint_def Let_def poke_copy poke_publish)
            qed
          qed
        qed
      qed
    qed
  qed
qed

lemma inactive_kept:
  assumes run: "tick_endpoint h env b j st = Some (Inr st')" and ia: "inactive_at h i (snd st)"
  shows "inactive_at h i (snd st')"
proof (cases "j = i")
  case False
  from tick_endpoint_frame[OF run, where i = i] False
  have "register_at (snd st') i = register_at (snd st) i" by (simp add: step_frame_def)
  with ia show ?thesis by (simp add: inactive_at_def)
next
  case True
  from tick_endpoint_reads[OF run] True obtain r bufs where
    reg: "register_at (snd st) i = Inr r" and bufs: "asioBuffers_at (snd st) b i = Inr bufs"
    by blast
  from ia reg have "silence_path h r (sharedBufferSize (snd st))"
    by (simp add: inactive_at_def silence_path_def)
  with tick_endpoint_effect(1)[OF run[unfolded True] reg bufs refl] have
    "register_at (snd st') i = Inr r" by blast
  with ia reg show ?thesis by (simp add: inactive_at_def)
qed

lemma poke_loop:
  "inactive_at h i (snd st) \<Longrightarrow>
   tick_loop h env b n k (fst st, with_buffer_registers i x y (snd st)) =
     map_option (map_sum id (\<lambda>(hu', c'). (hu', with_buffer_registers i x y c')))
       (tick_loop h env b n k st)"
proof (induction "n - k" arbitrary: k st rule: less_induct)
  case less
  obtain hu c where st: "st = (hu, c)" by (cases st)
  show ?case
  proof (cases "k < n")
    case False
    with st show ?thesis by (simp add: tick_loop_done)
  next
    case True
    have m: "n - (k + 1) < n - k" using True by simp
    from less.prems st have ia: "inactive_at h i c" by simp
    note pe = poke_endpoint[OF ia, of env b k hu x y]
    show ?thesis
    proof (cases "tick_endpoint h env b k (hu, c)")
      case None
      with True st pe show ?thesis by (simp add: tick_loop_step)
    next
      case (Some q)
      show ?thesis
      proof (cases q)
        case (Inl e)
        with Some True st pe show ?thesis by (simp add: tick_loop_step)
      next
        case (Inr st1)
        from inactive_kept[OF _ less.prems, of env b k st1] Some Inr st
        have ia1: "inactive_at h i (snd st1)" by simp
        from less.hyps[OF m ia1] Some Inr True st pe show ?thesis
          by (simp add: tick_loop_step case_prod_beta)
      qed
    qed
  qed
qed

lemma poke_tick:
  assumes "inactive_at h i c"
  shows "tick h env b (with_buffer_registers i x y c) =
           map_option (map_sum id (with_buffer_registers i x y)) (tick h env b c)"
proof (cases "registers c")
  case None
  then have "with_buffer_registers i x y c = c" by (simp add: with_buffer_registers_def)
  with None show ?thesis by (simp add: tick_def)
next
  case (Some rs)
  let ?c1 = "if updateSampleRateOnTick c
             then oscall (DeviceIoControl (device c) SAR_SEND_FORMAT_CHANGE_EVENT)
                    (c\<lparr>updateSampleRateOnTick := False\<rparr>)
             else c"
  have ia1: "inactive_at h i (snd (False, ?c1))" using assms
    by (simp add: inactive_at_def register_at_def oscall_def)
  have c1: "(if updateSampleRateOnTick (with_buffer_registers i x y c)
             then oscall (DeviceIoControl (device (with_buffer_registers i x y c))
                            SAR_SEND_FORMAT_CHANGE_EVENT)
                    ((with_buffer_registers i x y c)\<lparr>updateSampleRateOnTick := False\<rparr>)
             else with_buffer_registers i x y c) = with_buffer_registers i x y ?c1"
    by (simp add: poke_updates[symmetric] del: poke_updates)
  have ep: "endpoints ?c1 = endpoints c" by (simp add: oscall_def)
  obtain rs' where rs': "registers (with_buffer_registers i x y c) = Some rs'"
    using Some by (simp add: with_buffer_registers_def)
  note pl = poke_loop[OF ia1, of env b "length (endpoints c)" 0 x y]
  show ?thesis
  proof (cases "tick_loop h env b (length (endpoints c)) 0 (False, ?c1)")
    case None
    with Some rs' pl c1 ep show ?thesis by (simp add: tick_def Let_def)
  next
    case s: (Some q)
    with Some rs' pl c1 ep show ?thesis
      by (cases q) (simp_all add: tick_def Let_def case_prod_beta)
  qed
qed

section \<open>Claims about the tick\<close>

lemma silencedD:
  "silenced n before after \<Longrightarrow> k < length before \<Longrightarrow> before ! k = Some t \<Longrightarrow> x < n \<Longrightarrow>
     \<exists>t'. after ! k = Some t' \<and> t' x = 0"
  by (auto simp: silenced_def split: option.splits)

lemma small_ready: "tick_ready sar_h_spec (quiet_env late) 0 (small_client g p nh)"
  by (simp add: tick_ready_def env_in_range_def small_client_def quiet_env_def)

lemma small_facts:
  "registers (small_client g p nh) = Some [small_registers g p]"
  "0 < length (endpoints (small_client g p nh))"
  "0 < length (notificationHandles (small_client g p nh))"
  "notificationHandles (small_client g p nh) ! 0 = nh"
  "sharedBufferSize (small_client g p nh) = 64"
  "periodFrameSize (small_client g p nh) = 2"
  "sampleSize_cfg (small_client g p nh) = 2"
  "oscalls (small_client g p nh) = []"
  "asioBuffers (small_client g p nh) ! 0 ! 0 = [Some (\<lambda>x. 255), None, Some (\<lambda>x. 255)]"
  by (simp_all add: small_client_def)

lemma quiet_no_delivery: "\<not> delivers_to (quiet_env late) i"
  by (simp add: delivers_to_def quiet_env_def)

lemma spec_bits:
  "GENERATION_IS_ACTIVE sar_h_spec 0x80000001"
  "\<not> GENERATION_IS_ACTIVE sar_h_spec 1"
  "GENERATION_NUMBER sar_h_spec 0x80000001 = 1"
  "GENERATION_NUMBER sar_h_spec 0x80000002 = 2"
  "GENERATION_NUMBER sar_h_spec 1 = 1"
  "GENERATION_NUMBER sar_h_spec 0 = 0"
  by (simp_all add: sar_h_spec_def)

text \<open>
  C1. When the generation read again after the copy of endpoint \<open>i\<close> has lost its active
  bit, or its generation number is not the one of the first read, the tick leaves the
  position register of the endpoint as it was and every non-null host buffer of the
  endpoint holds zeroes over the whole period, null entries staying null. A tick on a
  well-formed session returns.
\<close>

theorem tick_generation_race:
  assumes "registers c = Some rs"
    and "i < length (endpoints c)"
    and "\<not> GENERATION_IS_ACTIVE h (lateGeneration env i) \<or>
         GENERATION_NUMBER h (generation (rs ! i)) \<noteq> GENERATION_NUMBER h (lateGeneration env i)"
  shows "(tick_ready h env bufferIndex c \<longrightarrow> (\<exists>c'. tick h env bufferIndex c = Some (Inr c'))) \<and>
         (\<forall>c'. tick h env bufferIndex c = Some (Inr c') \<longrightarrow>
            (\<exists>rs'. registers c' = Some rs' \<and>
               positionRegister (rs' ! i) = positionRegister (rs ! i) \<and>
               silenced (unat (of_nat (periodFrameSize c * sampleSize_cfg c) :: DWORD))
                 (asioBuffers c ! bufferIndex ! i) (asioBuffers c' ! bufferIndex ! i)))"
proof (intro conjI allI impI)
  assume "tick_ready h env bufferIndex c"
  then show "\<exists>c'. tick h env bufferIndex c = Some (Inr c')" by (rule tick_total)
next
  fix c' assume run: "tick h env bufferIndex c = Some (Inr c')"
  from tick_effect[OF run assms(1,2) refl] assms(3)
  show "\<exists>rs'. registers c' = Some rs' \<and>
               positionRegister (rs' ! i) = positionRegister (rs ! i) \<and>
               silenced (unat (of_nat (periodFrameSize c * sampleSize_cfg c) :: DWORD))
                 (asioBuffers c ! bufferIndex ! i) (asioBuffers c' ! bufferIndex ! i)"
    by (auto simp: generation_race_def)
qed

theorem tick_generation_race_witness:
  "\<exists>c' rs'. tick sar_h_spec (quiet_env 0x80000002) 0
              (small_client 0x80000001 12 \<lparr>generation_nh = 1, handle = 7\<rparr>) = Some (Inr c') \<and>
      registers c' = Some rs' \<and> positionRegister (rs' ! 0) = 12 \<and>
      silenced 4 [Some (\<lambda>x. 255), None, Some (\<lambda>x. 255)] (asioBuffers c' ! 0 ! 0)"
proof -
  let ?c = "small_client 0x80000001 12 \<lparr>generation_nh = 1, handle = 7\<rparr>"
  have race: "\<not> GENERATION_IS_ACTIVE sar_h_spec (lateGeneration (quiet_env 0x80000002) 0) \<or>
         GENERATION_NUMBER sar_h_spec (generation ([small_registers 0x80000001 12] ! 0)) \<noteq>
         GENERATION_NUMBER sar_h_spec (lateGeneration (quiet_env 0x80000002) 0)"
    by (simp add: spec_bits quiet_env_def small_registers_def)
  note t = tick_generation_race[OF small_facts(1) small_facts(2) race, of 0]
  from t small_ready obtain c' where
    run: "tick sar_h_spec (quiet_env 0x80000002) 0 ?c = Some (Inr c')" by blast
  from t[THEN conjunct2, rule_format, OF run] run show ?thesis
    by (simp add: small_facts small_registers_def)
qed

lemma chunk_unat:
  fixes ch :: DWORD
  shows "unat ((of_nat k :: DWORD) * ch) = (k * unat ch) mod 2 ^ 32"
proof -
  have "unat ((of_nat k :: DWORD) * ch) = (unat (of_nat k :: DWORD) * unat ch) mod 2 ^ 32"
    by (simp add: unat_word_ariths)
  also have "\<dots> = ((k mod 2 ^ 32) * unat ch) mod 2 ^ 32"
    by (simp add: unat_of_nat)
  also have "\<dots> = (k * unat ch) mod 2 ^ 32"
    by (simp add: mod_mult_left_eq)
  finally show ?thesis .
qed

lemma next_unat:
  fixes p chunk bs :: DWORD
  shows "unat ((p + chunk) mod bs) = ((unat p + unat chunk) mod 2 ^ 32) mod unat bs"
  by (simp add: unat_mod unat_word_ariths)

lemma next_exact:
  fixes p ch bs :: DWORD
  assumes "unat p + k * unat ch < 2 ^ 32"
  shows "unat ((p + of_nat k * ch) mod bs) = (unat p + k * unat ch) mod unat bs"
proof -
  from assms have "k * unat ch < 2 ^ 32" by simp
  then have c: "unat ((of_nat k :: DWORD) * ch) = k * unat ch"
    by (simp add: chunk_unat)
  with assms show ?thesis by (simp add: next_unat)
qed

text \<open>
  C2, as the claim is written: an endpoint that passes the four checks of the silence
  path, with a ring of 24 bytes, the position at 0, a period of 4 bytes and a channel
  count of \<^verbatim>\<open>0x80000001\<close>. The tick stores 4 in the position register, where
  \<open>(positionRegister + hostPeriodBytes * activeChannelCount) mod bufferSize\<close> is 12: the
  product is taken in 32 bits and wraps to 4.
\<close>

theorem position_wraps:
  "GENERATION_IS_ACTIVE sar_h_spec (generation wrap_registers) \<and>
   0 < bufferSize wrap_registers \<and>
   positionRegister wrap_registers \<le> bufferSize wrap_registers \<and>
   bufferOffset wrap_registers + bufferSize wrap_registers \<le> sharedBufferSize wrap_client \<and>
   registers wrap_client = Some [wrap_registers] \<and>
   observed (tick sar_h_spec (quiet_env 0x80000001) 0 wrap_client) = Some ([4], []) \<and>
   (unat (positionRegister wrap_registers) +
      periodFrameSize wrap_client * sampleSize_cfg wrap_client *
        unat (activeChannelCount wrap_registers)) mod unat (bufferSize wrap_registers) = 12"
proof -
  have "observed (tick sar_h_spec (quiet_env 0x80000001) 0 wrap_client) = Some ([4], [])"
    by code_simp
  then show ?thesis
    by (simp add: wrap_registers_def wrap_client_def small_client_def sar_h_spec_def)
qed

text \<open>
  C2, amended. For an endpoint that passes the checks of the silence path (active, a
  buffer size above zero, a position not beyond the buffer size, the sub-range inside the
  mapped region) the next position is \<open>(positionRegister + frameChunkSize) mod bufferSize\<close>
  with \<open>frameChunkSize = asioBufferSize * activeChannelCount\<close>, the product and the sum
  taken in unsigned 32-bit arithmetic, that is modulo \<^verbatim>\<open>2^32\<close>; they are the product and
  the sum over the naturals whenever
  \<^verbatim>\<open>positionRegister + hostPeriodBytes * activeChannelCount < 2^32\<close>. The next position
  is below the buffer size. After the tick the position register holds its old value or
  that next position, and it holds the next position when the generation is confirmed
  and no notification is due. A tick on a well-formed session returns.
\<close>

theorem tick_next_position:
  assumes "registers c = Some rs"
    and "i < length (endpoints c)"
    and "GENERATION_IS_ACTIVE h (generation (rs ! i))"
    and "0 < bufferSize (rs ! i)"
    and "positionRegister (rs ! i) \<le> bufferSize (rs ! i)"
    and "bufferOffset (rs ! i) + bufferSize (rs ! i) \<le> sharedBufferSize c"
    and "frameChunkSize =
           (of_nat (periodFrameSize c * sampleSize_cfg c) :: DWORD) * activeChannelCount (rs ! i)"
    and "nextPositionRegister = (positionRegister (rs ! i) + frameChunkSize) mod bufferSize (rs ! i)"
  shows "nextPositionRegister < bufferSize (rs ! i) \<and>
         unat frameChunkSize =
           (periodFrameSize c * sampleSize_cfg c * unat (activeChannelCount (rs ! i))) mod 2 ^ 32 \<and>
         unat nextPositionRegister =
           ((unat (positionRegister (rs ! i)) + unat frameChunkSize) mod 2 ^ 32)
             mod unat (bufferSize (rs ! i)) \<and>
         (unat (positionRegister (rs ! i)) +
            periodFrameSize c * sampleSize_cfg c * unat (activeChannelCount (rs ! i)) < 2 ^ 32 \<longrightarrow>
            unat nextPositionRegister =
              (unat (positionRegister (rs ! i)) +
                 periodFrameSize c * sampleSize_cfg c * unat (activeChannelCount (rs ! i)))
                mod unat (bufferSize (rs ! i))) \<and>
         (tick_ready h env bufferIndex c \<longrightarrow> (\<exists>c'. tick h env bufferIndex c = Some (Inr c'))) \<and>
         (\<forall>c'. tick h env bufferIndex c = Some (Inr c') \<longrightarrow>
            (\<exists>rs'. registers c' = Some rs' \<and>
               (positionRegister (rs' ! i) = positionRegister (rs ! i) \<or>
                positionRegister (rs' ! i) = nextPositionRegister) \<and>
               (GENERATION_IS_ACTIVE h (lateGeneration env i) \<and>
                GENERATION_NUMBER h (generation (rs ! i)) =
                  GENERATION_NUMBER h (lateGeneration env i) \<and>
                \<not> notification_due (notificationCount (rs ! i)) (positionRegister (rs ! i))
                    nextPositionRegister (bufferSize (rs ! i)) \<longrightarrow>
                positionRegister (rs' ! i) = nextPositionRegister)))"
proof (intro conjI allI impI)
  show "nextPositionRegister < bufferSize (rs ! i)"
    using assms(4,8) by (simp add: word_mod_less_divisor)
next
  show "unat frameChunkSize =
      (periodFrameSize c * sampleSize_cfg c * unat (activeChannelCount (rs ! i))) mod 2 ^ 32"
    unfolding assms(7) by (rule chunk_unat)
next
  show "unat nextPositionRegister =
      ((unat (positionRegister (rs ! i)) + unat frameChunkSize) mod 2 ^ 32)
        mod unat (bufferSize (rs ! i))"
    unfolding assms(8) by (rule next_unat)
next
  assume "unat (positionRegister (rs ! i)) +
            periodFrameSize c * sampleSize_cfg c * unat (activeChannelCount (rs ! i)) < 2 ^ 32"
  then show "unat nextPositionRegister =
      (unat (positionRegister (rs ! i)) +
         periodFrameSize c * sampleSize_cfg c * unat (activeChannelCount (rs ! i)))
        mod unat (bufferSize (rs ! i))"
    unfolding assms(8) assms(7) by (rule next_exact)
next
  assume "tick_ready h env bufferIndex c"
  then show "\<exists>c'. tick h env bufferIndex c = Some (Inr c')" by (rule tick_total)
next
  fix c' assume run: "tick h env bufferIndex c = Some (Inr c')"
  let ?n = "of_nat (periodFrameSize c * sampleSize_cfg c) :: DWORD"
  have nx: "nextPosition (rs ! i) ?n = nextPositionRegister"
    using assms(7,8) by (simp add: nextPosition_def)
  have ns: "\<not> silence_path h (rs ! i) (sharedBufferSize c)"
    using assms(3-6) by (auto simp: silence_path_def)
  from tick_effect[OF run assms(1,2) refl] obtain rs' nh where
    r': "registers c' = Some rs'"
    and s: "silence_path h (rs ! i) (sharedBufferSize c) \<or>
       generation_race h (generation (rs ! i)) (lateGeneration env i) \<or>
       (notification_due (notificationCount (rs ! i)) (positionRegister (rs ! i))
          (nextPosition (rs ! i) ?n) (bufferSize (rs ! i)) \<and> \<not> handle_valid h (rs ! i) nh) \<longrightarrow>
         rs' ! i = rs ! i"
    and p: "\<not> silence_path h (rs ! i) (sharedBufferSize c) \<and>
       \<not> generation_race h (generation (rs ! i)) (lateGeneration env i) \<and>
       \<not> (notification_due (notificationCount (rs ! i)) (positionRegister (rs ! i))
          (nextPosition (rs ! i) ?n) (bufferSize (rs ! i)) \<and> \<not> handle_valid h (rs ! i) nh) \<longrightarrow>
         rs' ! i = (rs ! i)\<lparr>positionRegister := nextPosition (rs ! i) ?n\<rparr>"
    by blast
  have a: "positionRegister (rs' ! i) = positionRegister (rs ! i) \<or>
           positionRegister (rs' ! i) = nextPositionRegister"
    using s p nx by (cases "rs' ! i = rs ! i") auto
  have b: "GENERATION_IS_ACTIVE h (lateGeneration env i) \<and>
           GENERATION_NUMBER h (generation (rs ! i)) = GENERATION_NUMBER h (lateGeneration env i) \<and>
           \<not> notification_due (notificationCount (rs ! i)) (positionRegister (rs ! i))
               nextPositionRegister (bufferSize (rs ! i)) \<longrightarrow>
           positionRegister (rs' ! i) = nextPositionRegister"
    using p ns nx by (auto simp: generation_race_def)
  from r' a b show "\<exists>rs'. registers c' = Some rs' \<and>
               (positionRegister (rs' ! i) = positionRegister (rs ! i) \<or>
                positionRegister (rs' ! i) = nextPositionRegister) \<and>
               (GENERATION_IS_ACTIVE h (lateGeneration env i) \<and>
                GENERATION_NUMBER h (generation (rs ! i)) =
                  GENERATION_NUMBER h (lateGeneration env i) \<and>
                \<not> notification_due (notificationCount (rs ! i)) (positionRegister (rs ! i))
                    nextPositionRegister (bufferSize (rs ! i)) \<longrightarrow>
                positionRegister (rs' ! i) = nextPositionRegister)"
    by blast
qed

lemma scenario_ready: "tick_ready sar_h_spec (quiet_env late) 0 (scenario_client nh)"
  by (simp add: tick_ready_def env_in_range_def scenario_client_def quiet_env_def)

lemma scenario_facts:
  "registers (scenario_client nh) = Some [scenario_registers]"
  "0 < length (endpoints (scenario_client nh))"
  "0 < length (notificationHandles (scenario_client nh))"
  "notificationHandles (scenario_client nh) ! 0 = nh"
  "sharedBufferSize (scenario_client nh) = 1024"
  "periodFrameSize (scenario_client nh) = 75"
  "sampleSize_cfg (scenario_client nh) = 4"
  "oscalls (scenario_client nh) = []"
  by (simp_all add: scenario_client_def)

theorem tick_next_position_witness:
  "\<exists>c' rs'. tick sar_h_spec (quiet_env 0x80000001) 0
               (small_client 0x80000001 0 \<lparr>generation_nh = 1, handle = 7\<rparr>) = Some (Inr c') \<and>
      registers c' = Some rs' \<and> positionRegister (rs' ! 0) = 8"
proof -
  let ?c = "small_client 0x80000001 0 \<lparr>generation_nh = 1, handle = 7\<rparr>"
  let ?r = "[small_registers 0x80000001 0] ! 0"
  have h: "GENERATION_IS_ACTIVE sar_h_spec (generation ?r)"
    "0 < bufferSize ?r" "positionRegister ?r \<le> bufferSize ?r"
    "bufferOffset ?r + bufferSize ?r \<le> sharedBufferSize ?c"
    by (simp_all add: small_registers_def small_facts spec_bits)
  note t = tick_next_position[OF small_facts(1) small_facts(2) h refl refl,
      of "quiet_env 0x80000001" 0]
  from t small_ready obtain c' where
    run: "tick sar_h_spec (quiet_env 0x80000001) 0 ?c = Some (Inr c')" by blast
  from t[THEN conjunct2, THEN conjunct2, THEN conjunct2, THEN conjunct2, THEN conjunct2,
      rule_format, OF run]
  have "\<exists>rs'. registers c' = Some rs' \<and> positionRegister (rs' ! 0) = 8"
    by (auto simp: small_facts small_registers_def spec_bits quiet_env_def notification_due_def
        word_le_nat_alt)
  with run show ?thesis by blast
qed

text \<open>
  C3, as the claim is written: on the scenario with a notification handle slot that
  has never been filled and a driver that delivers none, the tick returns with the
  position register still 512 and no call of \<^verbatim>\<open>SetEvent\<close>.
\<close>

theorem scenario_without_handle:
  "observed (tick sar_h_spec (quiet_env 0x80000001) 0
               (scenario_client \<lparr>generation_nh = 0, handle = 0\<rparr>)) =
     Some ([512], [DeviceIoControl 3 SAR_WAIT_HANDLE_QUEUE])"
  by code_simp

text \<open>
  C3, amended. For an active endpoint with \<open>bufferSize = 1024\<close>,
  \<open>positionRegister = 512\<close>, \<open>frameChunkSize = 600\<close> and \<open>notificationCount = 1\<close>
  whose sub-range lies inside the mapped region, whose generation is confirmed by the
  second read, and whose cached notification handle is non-null, carries the generation
  number of the endpoint and is not replaced during the tick: the tick leaves 88 in the
  position register and calls \<^verbatim>\<open>SetEvent\<close> on that handle. A tick on a well-formed session
  returns.
\<close>

theorem tick_scenario_signal:
  assumes "registers c = Some rs"
    and "i < length (endpoints c)"
    and "bufferSize (rs ! i) = 1024"
    and "positionRegister (rs ! i) = 512"
    and "(of_nat (periodFrameSize c * sampleSize_cfg c) :: DWORD) * activeChannelCount (rs ! i) = 600"
    and "notificationCount (rs ! i) = 1"
    and "GENERATION_IS_ACTIVE h (generation (rs ! i))"
    and "bufferOffset (rs ! i) + bufferSize (rs ! i) \<le> sharedBufferSize c"
    and "GENERATION_IS_ACTIVE h (lateGeneration env i)"
    and "GENERATION_NUMBER h (generation (rs ! i)) = GENERATION_NUMBER h (lateGeneration env i)"
    and "i < length (notificationHandles c)"
    and "handle (notificationHandles c ! i) \<noteq> 0"
    and "GENERATION_NUMBER h (generation_nh (notificationHandles c ! i)) =
           GENERATION_NUMBER h (generation (rs ! i))"
    and "\<not> delivers_to env i"
  shows "(tick_ready h env bufferIndex c \<longrightarrow> (\<exists>c'. tick h env bufferIndex c = Some (Inr c'))) \<and>
         (\<forall>c'. tick h env bufferIndex c = Some (Inr c') \<longrightarrow>
            (\<exists>rs' pre post. registers c' = Some rs' \<and> positionRegister (rs' ! i) = 88 \<and>
               oscalls c' =
                 oscalls c @ pre @ SetEvent (handle (notificationHandles c ! i)) # post))"
proof (intro conjI allI impI)
  assume "tick_ready h env bufferIndex c"
  then show "\<exists>c'. tick h env bufferIndex c = Some (Inr c')" by (rule tick_total)
next
  fix c' assume run: "tick h env bufferIndex c = Some (Inr c')"
  let ?n = "of_nat (periodFrameSize c * sampleSize_cfg c) :: DWORD"
  let ?r = "rs ! i"
  have nx: "nextPosition ?r ?n = 88"
    using assms(3,4,5) by (simp add: nextPosition_def)
  have ns: "\<not> silence_path h ?r (sharedBufferSize c)"
    using assms(3,4,7,8) by (simp add: silence_path_def not_less)
  have nr: "\<not> generation_race h (generation ?r) (lateGeneration env i)"
    using assms(9,10) by (simp add: generation_race_def)
  have due: "notification_due (notificationCount ?r) (positionRegister ?r)
               (nextPosition ?r ?n) (bufferSize ?r)"
    using assms(3,4,6) nx by (simp add: notification_due_def)
  from tick_effect[OF run assms(1,2) refl] obtain rs' nh where
    r': "registers c' = Some rs'"
    and nh: "\<not> delivers_to env i \<and> i < length (notificationHandles c) \<longrightarrow>
               nh = notificationHandles c ! i"
    and p: "\<not> silence_path h ?r (sharedBufferSize c) \<and>
       \<not> generation_race h (generation ?r) (lateGeneration env i) \<and>
       \<not> (notification_due (notificationCount ?r) (positionRegister ?r)
          (nextPosition ?r ?n) (bufferSize ?r) \<and> \<not> handle_valid h ?r nh) \<longrightarrow>
         rs' ! i = ?r\<lparr>positionRegister := nextPosition ?r ?n\<rparr> \<and>
         (notification_due (notificationCount ?r) (positionRegister ?r)
            (nextPosition ?r ?n) (bufferSize ?r) \<longrightarrow>
          (\<exists>pre post. oscalls c' = oscalls c @ pre @ SetEvent (handle nh) # post))"
    by blast
  from nh assms(11,14) have nhe: "nh = notificationHandles c ! i" by simp
  with assms(12,13) have hv: "handle_valid h ?r nh" by (simp add: handle_valid_def)
  from p ns nr hv due have w: "rs' ! i = ?r\<lparr>positionRegister := nextPosition ?r ?n\<rparr>"
    and "\<exists>pre post. oscalls c' = oscalls c @ pre @ SetEvent (handle nh) # post"
    by simp_all
  then obtain pre post where
    o: "oscalls c' = oscalls c @ pre @ SetEvent (handle (notificationHandles c ! i)) # post"
    using nhe by auto
  from w nx have "positionRegister (rs' ! i) = 88" by simp
  with r' o show "\<exists>rs' pre post. registers c' = Some rs' \<and> positionRegister (rs' ! i) = 88 \<and>
               oscalls c' =
                 oscalls c @ pre @ SetEvent (handle (notificationHandles c ! i)) # post"
    by blast
qed

theorem tick_scenario_signal_witness:
  "\<exists>c' rs' pre post.
      tick sar_h_spec (quiet_env 0x80000001) 0
        (scenario_client \<lparr>generation_nh = 1, handle = 7\<rparr>) = Some (Inr c') \<and>
      registers c' = Some rs' \<and> positionRegister (rs' ! 0) = 88 \<and>
      oscalls c' = pre @ SetEvent 7 # post"
proof -
  let ?nh = "\<lparr>generation_nh = 1, handle = 7\<rparr>"
  let ?c = "scenario_client ?nh"
  let ?r = "[scenario_registers] ! 0"
  let ?env = "quiet_env 0x80000001"
  have h: "bufferSize ?r = 1024" "positionRegister ?r = 512"
    "(of_nat (periodFrameSize ?c * sampleSize_cfg ?c) :: DWORD) * activeChannelCount ?r = 600"
    "notificationCount ?r = 1"
    "GENERATION_IS_ACTIVE sar_h_spec (generation ?r)"
    "bufferOffset ?r + bufferSize ?r \<le> sharedBufferSize ?c"
    "GENERATION_IS_ACTIVE sar_h_spec (lateGeneration ?env 0)"
    "GENERATION_NUMBER sar_h_spec (generation ?r) =
       GENERATION_NUMBER sar_h_spec (lateGeneration ?env 0)"
    by (simp_all add: scenario_registers_def scenario_facts spec_bits quiet_env_def)
  have g: "handle (notificationHandles ?c ! 0) \<noteq> 0"
    "GENERATION_NUMBER sar_h_spec (generation_nh (notificationHandles ?c ! 0)) =
       GENERATION_NUMBER sar_h_spec (generation ?r)"
    by (simp_all add: scenario_registers_def scenario_facts spec_bits)
  note t = tick_scenario_signal[OF scenario_facts(1) scenario_facts(2) h scenario_facts(3) g
      quiet_no_delivery[of "0x80000001" 0], where bufferIndex = 0]
  from t scenario_ready obtain c' where
    run: "tick sar_h_spec ?env 0 ?c = Some (Inr c')" by blast
  from t[THEN conjunct2, rule_format, OF run] run show ?thesis
    by (simp add: scenario_facts)
qed



lemma poke_poke:
  "with_buffer_registers i x2 y2 (with_buffer_registers i x1 y1 c) =
     with_buffer_registers i x2 y2 c"
proof (cases "registers c")
  case None
  then show ?thesis by (simp add: with_buffer_registers_def)
next
  case (Some rs)
  show ?thesis
  proof (cases "i < length rs")
    case True
    with Some show ?thesis by (simp add: with_buffer_registers_def)
  next
    case False
    then have "\<And>v. rs[i := v] = rs" by (simp add: list_update_beyond)
    with Some show ?thesis by (simp add: with_buffer_registers_def)
  qed
qed

lemma poke_inactive:
  "inactive_at h i (with_buffer_registers i x y c) = inactive_at h i c"
  by (cases "register_at c i") (simp_all add: inactive_at_def poke_register_at)

lemma poke_twice:
  "map_option (map_sum id (with_buffer_registers i x2 y2))
     (map_option (map_sum id (with_buffer_registers i x1 y1)) out) =
   map_option (map_sum id (with_buffer_registers i x2 y2)) out"
proof (cases out)
  case None
  then show ?thesis by simp
next
  case (Some q)
  then show ?thesis by (cases q) (simp_all add: poke_poke)
qed

text \<open>
  C7. For an endpoint \<open>i\<close> whose generation has the active bit unset, every non-null
  host buffer of the endpoint holds zeroes over the whole period after the tick, and
  the tick does not depend on the registers \<open>bufferOffset\<close> and \<open>bufferSize\<close> of the
  endpoint: for any two pairs of values in these two registers the two runs end alike
  (both return, both fault in the same way, or neither returns), and the state after
  one is the state after the other but for the two registers themselves, which the tick
  leaves as it found them. A tick on a well-formed session returns.
\<close>

theorem tick_inactive_endpoint:
  assumes "registers c = Some rs"
    and "i < length (endpoints c)"
    and "\<not> GENERATION_IS_ACTIVE h (generation (rs ! i))"
  shows "(tick_ready h env bufferIndex c \<longrightarrow> (\<exists>c'. tick h env bufferIndex c = Some (Inr c'))) \<and>
         (\<forall>c'. tick h env bufferIndex c = Some (Inr c') \<longrightarrow>
            silenced (unat (of_nat (periodFrameSize c * sampleSize_cfg c) :: DWORD))
              (asioBuffers c ! bufferIndex ! i) (asioBuffers c' ! bufferIndex ! i)) \<and>
         (\<forall>offset1 size1 offset2 size2.
            tick h env bufferIndex (with_buffer_registers i offset2 size2 c) =
              map_option (map_sum id (with_buffer_registers i offset2 size2))
                (tick h env bufferIndex (with_buffer_registers i offset1 size1 c)))"
proof (intro conjI allI impI)
  assume "tick_ready h env bufferIndex c"
  then show "\<exists>c'. tick h env bufferIndex c = Some (Inr c')" by (rule tick_total)
next
  fix c' assume run: "tick h env bufferIndex c = Some (Inr c')"
  have sp: "silence_path h (rs ! i) (sharedBufferSize c)"
    using assms(3) by (simp add: silence_path_def)
  from tick_effect[OF run assms(1,2) refl] sp
  show "silenced (unat (of_nat (periodFrameSize c * sampleSize_cfg c) :: DWORD))
              (asioBuffers c ! bufferIndex ! i) (asioBuffers c' ! bufferIndex ! i)"
    by blast
next
  fix offset1 size1 offset2 size2
  have ia: "inactive_at h i c"
    using assms(1,3) by (simp add: inactive_at_def register_at_def)
  have "tick h env bufferIndex (with_buffer_registers i offset2 size2 c) =
          map_option (map_sum id (with_buffer_registers i offset2 size2)) (tick h env bufferIndex c)"
    by (rule poke_tick[OF ia])
  also have "\<dots> = map_option (map_sum id (with_buffer_registers i offset2 size2))
      (map_option (map_sum id (with_buffer_registers i offset1 size1)) (tick h env bufferIndex c))"
    by (simp only: poke_twice)
  also have "\<dots> = map_option (map_sum id (with_buffer_registers i offset2 size2))
      (tick h env bufferIndex (with_buffer_registers i offset1 size1 c))"
    by (simp only: poke_tick[OF ia])
  finally show "tick h env bufferIndex (with_buffer_registers i offset2 size2 c) =
              map_option (map_sum id (with_buffer_registers i offset2 size2))
                (tick h env bufferIndex (with_buffer_registers i offset1 size1 c))" .
qed

theorem tick_inactive_endpoint_witness:
  "(\<exists>c'. tick sar_h_spec (quiet_env 1) 0
            (small_client 1 12 \<lparr>generation_nh = 1, handle = 7\<rparr>) = Some (Inr c') \<and>
          silenced 4 [Some (\<lambda>x. 255), None, Some (\<lambda>x. 255)] (asioBuffers c' ! 0 ! 0)) \<and>
   tick sar_h_spec (quiet_env 1) 0
     (with_buffer_registers 0 4096 7 (small_client 1 12 \<lparr>generation_nh = 1, handle = 7\<rparr>)) =
   map_option (map_sum id (with_buffer_registers 0 4096 7))
     (tick sar_h_spec (quiet_env 1) 0
        (with_buffer_registers 0 0 16 (small_client 1 12 \<lparr>generation_nh = 1, handle = 7\<rparr>)))"
proof -
  let ?c = "small_client 1 12 \<lparr>generation_nh = 1, handle = 7\<rparr>"
  have ia: "\<not> GENERATION_IS_ACTIVE sar_h_spec (generation ([small_registers 1 12] ! 0))"
    by (simp add: small_registers_def spec_bits)
  note t = tick_inactive_endpoint[OF small_facts(1) small_facts(2) ia,
      where env = "quiet_env 1" and bufferIndex = 0]
  from t small_ready obtain c' where
    run: "tick sar_h_spec (quiet_env 1) 0 ?c = Some (Inr c')" by blast
  from t[THEN conjunct2, THEN conjunct1, rule_format, OF run]
  have z: "silenced 4 [Some (\<lambda>x. 255), None, Some (\<lambda>x. 255)] (asioBuffers c' ! 0 ! 0)"
    by (simp add: small_facts)
  from t[THEN conjunct2, THEN conjunct2, rule_format,
      where ?offset2.0 = 4096 and ?size2.0 = 7 and ?offset1.0 = 0 and ?size1.0 = 16]
  have e: "tick sar_h_spec (quiet_env 1) 0 (with_buffer_registers 0 4096 7 ?c) =
     map_option (map_sum id (with_buffer_registers 0 4096 7))
       (tick sar_h_spec (quiet_env 1) 0 (with_buffer_registers 0 0 16 ?c))" .
  from run z e show ?thesis by blast
qed

section \<open>Claims about the session lifecycle\<close>

lemma oscall_fields [simp]:
  "device (oscall e c) = device c"
  "completionPort (oscall e c) = completionPort c"
  "mmNotificationClientRegistered (oscall e c) = mmNotificationClientRegistered c"
  "mmNotificationClient (oscall e c) = mmNotificationClient c"
  "mmEnumerator (oscall e c) = mmEnumerator c"
  "registers (oscall e c) = registers c"
  "sharedBuffer (oscall e c) = sharedBuffer c"
  "sharedBufferSize (oscall e c) = sharedBufferSize c"
  "endpoints (oscall e c) = endpoints c"
  "enableApplicationRouting (oscall e c) = enableApplicationRouting c"
  by (simp_all add: oscall_def)

lemma stop_post:
  "stop c = Inr c' \<Longrightarrow> torn_down c'"
  by (auto simp: stop_def torn_down_def Let_def split: if_splits)

lemma stop_fixed:
  "torn_down c \<Longrightarrow> stop c = Inr c"
  by (simp add: stop_def torn_down_def Let_def)

lemma stop_total:
  "(mmNotificationClientRegistered c \<longrightarrow> mmEnumerator c \<noteq> 0) \<Longrightarrow> \<exists>c'. stop c = Inr c'"
  by (auto simp: stop_def Let_def)


lemma device_codes: "INVALID_HANDLE_VALUE \<noteq> 0" "INVALID_HANDLE_VALUE \<noteq> 3"
  by (simp_all add: INVALID_HANDLE_VALUE_def)

text \<open>
  C9. When \<^verbatim>\<open>stop\<close> has returned, a second \<^verbatim>\<open>stop\<close> returns too, without a fault and
  without a call to the operating system, and leaves the whole session state, with the
  device handle, the pointers to the shared region and to the registers, the size of
  the shared buffer, the registration of the notification client and the completion
  port, as the first call left it. The first call returns whenever a registered
  notification client comes with a non-null enumerator.
\<close>

theorem stop_idempotent:
  "((mmNotificationClientRegistered c \<longrightarrow> mmEnumerator c \<noteq> 0) \<longrightarrow> (\<exists>c'. stop c = Inr c')) \<and>
   (\<forall>c'. stop c = Inr c' \<longrightarrow> stop c' = Inr c')"
proof (intro conjI allI impI)
  assume "mmNotificationClientRegistered c \<longrightarrow> mmEnumerator c \<noteq> 0"
  then show "\<exists>c'. stop c = Inr c'" by (rule stop_total)
next
  fix c' assume "stop c = Inr c'"
  then have "torn_down c'" by (rule stop_post)
  then show "stop c' = Inr c'" by (rule stop_fixed)
qed

theorem stop_idempotent_witness:
  "\<exists>c'. stop running_client = Inr c' \<and> stop c' = Inr c' \<and>
        oscalls c' = [UnregisterEndpointNotificationCallback 6 5, Release 5, CancelIoEx 3,
                      CloseHandle 3, CloseHandle 4]"
proof -
  have e: "mmNotificationClientRegistered running_client \<longrightarrow> mmEnumerator running_client \<noteq> 0"
    by (simp add: running_client_def)
  note t = stop_idempotent[of running_client]
  from t e obtain c' where s: "stop running_client = Inr c'" by blast
  from t s have s2: "stop c' = Inr c'" by blast
  from s have "oscalls c' = [UnregisterEndpointNotificationCallback 6 5, Release 5, CancelIoEx 3,
                      CloseHandle 3, CloseHandle 4]"
    by (auto simp: stop_def running_client_def fresh_client_def oscall_def Let_def device_codes)
  with s s2 show ?thesis by blast
qed















end
